theory Spec2Isabelle
  imports Complex_Main
begin

section \<open>JavaScript values used by the scroll service\<close>

text \<open>
  A property of a JavaScript object may hold \<open>undefined\<close>, \<open>null\<close> or a proper value.
  The service tests for these explicitly (\<open>=== null\<close>, \<open>!== undefined\<close>, truthiness),
  so they are part of the model.
\<close>

datatype 'a jsval = Undefined | Null | Val 'a

text \<open>
  JavaScript numbers. Finite values are exact reals here: the rounding of IEEE doubles
  and the sign of zero are not modelled. \<open>NaN\<close> and the two infinities are, since the
  service tests \<open>isNaN\<close> and divides by a caller-supplied speed.
\<close>

datatype jsnum = NaN | NInf | Fin real | PInf

datatype error = TypeError

text \<open>The outcome of a \<open>void\<close> operation: it returns, or an exception leaves it.
  Both carry the service state at that point.\<close>

datatype 's result = Returned 's | Threw error 's

fun state_of :: "'s result \<Rightarrow> 's" where
  "state_of (Returned s) = s"
| "state_of (Threw e s) = s"

fun isNaN :: "jsnum \<Rightarrow> bool" where
  "isNaN NaN = True"
| "isNaN x = False"

text \<open>\<open>ToNumber\<close> on a numeric property: \<open>undefined\<close> is \<open>NaN\<close>, \<open>null\<close> is \<open>0\<close>.\<close>

fun to_number :: "jsnum jsval \<Rightarrow> jsnum" where
  "to_number Undefined = NaN"
| "to_number Null = Fin 0"
| "to_number (Val n) = n"

fun js_neg :: "jsnum \<Rightarrow> jsnum" where
  "js_neg NaN = NaN"
| "js_neg NInf = PInf"
| "js_neg (Fin x) = Fin (- x)"
| "js_neg PInf = NInf"

fun js_add :: "jsnum \<Rightarrow> jsnum \<Rightarrow> jsnum" where
  "js_add NaN y = NaN"
| "js_add x NaN = NaN"
| "js_add (Fin x) (Fin y) = Fin (x + y)"
| "js_add PInf NInf = NaN"
| "js_add NInf PInf = NaN"
| "js_add PInf y = PInf"
| "js_add NInf y = NInf"
| "js_add (Fin x) y = y"

definition js_sub :: "jsnum \<Rightarrow> jsnum \<Rightarrow> jsnum" where
  "js_sub x y = js_add x (js_neg y)"

fun js_abs :: "jsnum \<Rightarrow> jsnum" where
  "js_abs NaN = NaN"
| "js_abs NInf = PInf"
| "js_abs (Fin x) = Fin \<bar>x\<bar>"
| "js_abs PInf = PInf"

text \<open>The sign of a non-\<open>NaN\<close> number, with zero counted as positive zero.\<close>

fun js_nonneg :: "jsnum \<Rightarrow> bool" where
  "js_nonneg NInf = False"
| "js_nonneg (Fin x) = (0 \<le> x)"
| "js_nonneg x = True"

fun js_mul :: "jsnum \<Rightarrow> jsnum \<Rightarrow> jsnum" where
  "js_mul NaN y = NaN"
| "js_mul x NaN = NaN"
| "js_mul (Fin x) (Fin y) = Fin (x * y)"
| "js_mul (Fin x) y = (if x = 0 then NaN else if (0 \<le> x) = js_nonneg y then PInf else NInf)"
| "js_mul x (Fin y) = (if y = 0 then NaN else if js_nonneg x = (0 \<le> y) then PInf else NInf)"
| "js_mul x y = (if js_nonneg x = js_nonneg y then PInf else NInf)"

fun js_div :: "jsnum \<Rightarrow> jsnum \<Rightarrow> jsnum" where
  "js_div NaN y = NaN"
| "js_div x NaN = NaN"
| "js_div (Fin x) (Fin y) =
     (if y \<noteq> 0 then Fin (x / y)
      else if x = 0 then NaN else if 0 < x then PInf else NInf)"
| "js_div (Fin x) y = Fin 0"
| "js_div x (Fin y) = (if js_nonneg x = (0 \<le> y) then PInf else NInf)"
| "js_div x y = NaN"

fun js_lt :: "jsnum \<Rightarrow> jsnum \<Rightarrow> bool" where
  "js_lt NaN y = False"
| "js_lt x NaN = False"
| "js_lt (Fin x) (Fin y) = (x < y)"
| "js_lt x NInf = False"
| "js_lt PInf y = False"
| "js_lt NInf y = True"
| "js_lt x PInf = True"

fun js_le :: "jsnum \<Rightarrow> jsnum \<Rightarrow> bool" where
  "js_le NaN y = False"
| "js_le x NaN = False"
| "js_le x y = (x = y \<or> js_lt x y)"

definition js_ge :: "jsnum \<Rightarrow> jsnum \<Rightarrow> bool" where
  "js_ge x y = js_le y x"

text \<open>\<open>Math.round\<close>: the nearest integer, halves going up.\<close>

fun js_round :: "jsnum \<Rightarrow> jsnum" where
  "js_round (Fin x) = Fin (of_int \<lfloor>x + 1 / 2\<rfloor>)"
| "js_round x = x"

text \<open>Truthiness of a string, a number and a boolean property.\<close>

fun truthy_string :: "string jsval \<Rightarrow> bool" where
  "truthy_string (Val s) = (s \<noteq> [])"
| "truthy_string x = False"

fun truthy_number :: "jsnum jsval \<Rightarrow> bool" where
  "truthy_number (Val NaN) = False"
| "truthy_number (Val (Fin x)) = (x \<noteq> 0)"
| "truthy_number (Val x) = True"
| "truthy_number x = False"

fun truthy_bool :: "bool jsval \<Rightarrow> bool" where
  "truthy_bool (Val b) = b"
| "truthy_bool x = False"

text \<open>\<open>x !== undefined && x !== null\<close>\<close>

fun given :: "'a jsval \<Rightarrow> bool" where
  "given (Val x) = True"
| "given x = False"

text \<open>Reading a property: a key that the object does not have reads as \<open>undefined\<close>.\<close>

fun rd :: "'a jsval option \<Rightarrow> 'a jsval" where
  "rd None = Undefined"
| "rd (Some v) = v"

section \<open>Options, instances and the service state\<close>

type_synonym view = nat
type_synonym node = nat
type_synonym ref = nat
type_synonym easing = "jsnum \<Rightarrow> jsnum \<Rightarrow> jsnum \<Rightarrow> jsnum jsval \<Rightarrow> jsnum"

text \<open>
  Modelled from the spec: the declarations of \<open>PageScrollConfig\<close> and \<open>PageScrollOptions\<close>
  (\<open>types/page-scroll.config\<close>, \<open>types/page-scroll-instance\<close>) are not among the sources.
  The record lists the properties that the service reads. Each is optional (\<open>None\<close>: the
  object has no such key), which is what the spread \<open>{...a, ...b}\<close> looks at. An entry of
  \<open>scrollViews\<close> may itself be \<open>undefined\<close> or \<open>null\<close>; \<open>start\<close> skips such entries.
\<close>

record options =
  namespace :: "string jsval option"
  duration :: "jsnum jsval option"
  speed :: "jsnum jsval option"
  interruptible :: "bool jsval option"
  isVerticalScrolling :: "bool jsval option"
  minScrollDistance :: "jsnum jsval option"
  interval :: "jsnum jsval option"
  logLevel :: "jsnum jsval option"
  interruptKeys :: "int list jsval option"
  scrollViews :: "view jsval list jsval option"
  easingLogic :: "easing jsval option"

text \<open>
  Modelled from the spec: the class \<open>PageScrollInstance\<close> is not among the sources. The
  record has the fields that the service reads and writes. \<open>timer\<close> is the handle that
  \<open>setInterval\<close> returned (a positive integer, so a truthy value), or \<open>None\<close> for
  \<open>undefined\<close>.
\<close>

record PageScrollInstance =
  pageScrollOptions :: options
  startScrollPosition :: jsnum
  targetScrollPosition :: jsnum
  distanceToScroll :: jsnum
  executionDuration :: "jsnum jsval"
  startTime :: jsnum
  endTime :: jsnum
  timer :: "nat option"
  interruptListenersAttached :: bool

text \<open>What the service writes to the console: \<open>console.warn\<close> and \<open>console.log\<close> of a
  message.\<close>

datatype message =
  NoScrollViews | TargetNotFound | AlreadyAtDestination | DurationTooShort | ServiceExists

datatype console_entry = Warn message | Log message

text \<open>
  The service object together with what it acts on: the instance objects (a store
  indexed by reference, since \<open>runningInstances\<close> holds references and \<open>indexOf\<close> compares
  them), the interval timers of the environment, the record of completion events that
  instances have fired, the console, and the scroll views' world \<open>'w\<close>.
\<close>

record 'w service =
  config :: options
  runningInstances :: "ref list"
  heap :: "ref \<Rightarrow> PageScrollInstance"
  activeTimers :: "nat list"
  nextTimer :: nat
  fired :: "(ref \<times> bool) list"
  console :: "console_entry list"
  world :: "'w"

text \<open>
  The methods of \<open>PageScrollInstance\<close> that touch the document, and Angular's
  \<open>isDevMode\<close>, are parameters of the model. They see the instance's options and the
  world; \<open>setScrollPosition\<close> also changes the world and tells whether the write worked
  for at least one view.
\<close>

record 'w env =
  isDevMode :: bool
  getScrollPropertyValue :: "'w \<Rightarrow> options \<Rightarrow> view \<Rightarrow> jsnum jsval"
  getCurrentOffset :: "'w \<Rightarrow> options \<Rightarrow> jsnum"
  extractScrollTargetPosition :: "'w \<Rightarrow> options \<Rightarrow> jsnum \<times> jsnum"
  setScrollPosition :: "'w \<Rightarrow> options \<Rightarrow> jsnum \<Rightarrow> bool \<times> 'w"
  contains :: "'w \<Rightarrow> view \<Rightarrow> node \<Rightarrow> bool"

record event =
  etype :: string
  keyCode :: int
  target :: node

definition opts :: "'w service \<Rightarrow> ref \<Rightarrow> options" where
  "opts s p = pageScrollOptions (heap s p)"

definition namespace_of :: "'w service \<Rightarrow> ref \<Rightarrow> string jsval" where
  "namespace_of s p = rd (namespace (opts s p))"

definition update_instance :: "ref \<Rightarrow> (PageScrollInstance \<Rightarrow> PageScrollInstance) \<Rightarrow> 'w service \<Rightarrow> 'w service" where
  "update_instance p f s = s\<lparr>heap := (heap s)(p := f (heap s p))\<rparr>"

text \<open>
  Modelled from the spec: \<open>fireEvent\<close>, \<open>attachInterruptListeners\<close> and
  \<open>detachInterruptListeners\<close> of \<open>PageScrollInstance\<close>. Firing the completion callback
  is recorded in \<open>fired\<close>; attaching and detaching set the instance's flag.
\<close>

definition fireEvent :: "ref \<Rightarrow> bool \<Rightarrow> 'w service \<Rightarrow> 'w service" where
  "fireEvent p b s = s\<lparr>fired := fired s @ [(p, b)]\<rparr>"

definition attachInterruptListeners :: "ref \<Rightarrow> 'w service \<Rightarrow> 'w service" where
  "attachInterruptListeners p s = update_instance p (\<lambda>i. i\<lparr>interruptListenersAttached := True\<rparr>) s"

definition detachInterruptListeners :: "ref \<Rightarrow> 'w service \<Rightarrow> 'w service" where
  "detachInterruptListeners p s = update_instance p (\<lambda>i. i\<lparr>interruptListenersAttached := False\<rparr>) s"

text \<open>The environment's interval timers: a fresh positive handle per \<open>setInterval\<close>.\<close>

definition setInterval :: "'w service \<Rightarrow> nat \<times> 'w service" where
  "setInterval s =
     (nextTimer s, s\<lparr>activeTimers := activeTimers s @ [nextTimer s], nextTimer := Suc (nextTimer s)\<rparr>)"

definition clearInterval :: "nat \<Rightarrow> 'w service \<Rightarrow> 'w service" where
  "clearInterval h s = s\<lparr>activeTimers := removeAll h (activeTimers s)\<rparr>"

section \<open>The stop sequence\<close>

text \<open>\<open>Array.prototype.indexOf\<close>: the first index of the element, or \<open>-1\<close>.\<close>

primrec indexOf :: "'a list \<Rightarrow> 'a \<Rightarrow> int" where
  "indexOf [] x = - 1"
| "indexOf (y # ys) x =
     (if y = x then 0 else (let r = indexOf ys x in if r < 0 then - 1 else r + 1))"

text \<open>\<open>splice(index, 1)\<close>\<close>

definition splice1 :: "nat \<Rightarrow> 'a list \<Rightarrow> 'a list" where
  "splice1 i xs = take i xs @ drop (Suc i) xs"

definition stopInternal :: "bool \<Rightarrow> ref \<Rightarrow> 'w service \<Rightarrow> bool \<times> 'w service" where
  "stopInternal interrupted p s =
     (let index = indexOf (runningInstances s) p;
          s1 = (if index \<ge> 0
                then s\<lparr>runningInstances := splice1 (nat index) (runningInstances s)\<rparr>
                else s);
          s2 = (if interruptListenersAttached (heap s1 p)
                then detachInterruptListeners p s1 else s1)
      in case timer (heap s2 p) of
           Some h \<Rightarrow>
             (True, fireEvent p (\<not> interrupted)
                      (update_instance p (\<lambda>i. i\<lparr>timer := None\<rparr>) (clearInterval h s2)))
         | None \<Rightarrow> (False, s2))"

lemma indexOf_neg: "indexOf xs x < 0 \<longleftrightarrow> x \<notin> set xs"
  by (induction xs) (auto simp: Let_def)

lemma splice_indexOf:
  "(if indexOf xs x \<ge> 0 then splice1 (nat (indexOf xs x)) xs else xs) = remove1 x xs"
proof (induction xs)
  case Nil
  show ?case by simp
next
  case (Cons y ys)
  show ?case
  proof (cases "y = x")
    case True
    then show ?thesis by (simp add: splice1_def)
  next
    case False
    show ?thesis
    proof (cases "indexOf ys x < 0")
      case True
      with False Cons show ?thesis by (simp add: Let_def)
    next
      case neg: False
      then have "nat (indexOf ys x + 1) = Suc (nat (indexOf ys x))" by simp
      with False neg Cons show ?thesis by (simp add: Let_def splice1_def)
    qed
  qed
qed

lemma runningInstances_stopInternal:
  "runningInstances (snd (stopInternal b p s)) = remove1 p (runningInstances s)"
proof -
  have "runningInstances (snd (stopInternal b p s)) =
          (if indexOf (runningInstances s) p \<ge> 0
           then splice1 (nat (indexOf (runningInstances s) p)) (runningInstances s)
           else runningInstances s)"
    by (simp add: stopInternal_def Let_def detachInterruptListeners_def update_instance_def
        fireEvent_def clearInterval_def split: option.splits)
  then show ?thesis by (simp only: splice_indexOf)
qed

lemma heap_stopInternal:
  "heap (snd (stopInternal b p s)) =
     (heap s)(p := (heap s p)\<lparr>timer := None, interruptListenersAttached := False\<rparr>)"
  by (auto simp: stopInternal_def Let_def detachInterruptListeners_def update_instance_def
      fireEvent_def clearInterval_def fun_eq_iff split: option.splits)

lemma fst_stopInternal: "fst (stopInternal b p s) = (timer (heap s p) \<noteq> None)"
  by (auto simp: stopInternal_def Let_def detachInterruptListeners_def update_instance_def
      fireEvent_def clearInterval_def split: option.splits)

lemma fired_stopInternal:
  "fired (snd (stopInternal b p s)) =
     fired s @ (case timer (heap s p) of None \<Rightarrow> [] | Some h \<Rightarrow> [(p, \<not> b)])"
  by (auto simp: stopInternal_def Let_def detachInterruptListeners_def update_instance_def
      fireEvent_def clearInterval_def split: option.splits)

lemma activeTimers_stopInternal:
  "activeTimers (snd (stopInternal b p s)) =
     (case timer (heap s p) of None \<Rightarrow> activeTimers s | Some h \<Rightarrow> removeAll h (activeTimers s))"
  by (auto simp: stopInternal_def Let_def detachInterruptListeners_def update_instance_def
      fireEvent_def clearInterval_def split: option.splits)

lemma other_stopInternal:
  "config (snd (stopInternal b p s)) = config s"
  "world (snd (stopInternal b p s)) = world s"
  "console (snd (stopInternal b p s)) = console s"
  "nextTimer (snd (stopInternal b p s)) = nextTimer s"
  by (auto simp: stopInternal_def Let_def detachInterruptListeners_def update_instance_def
      fireEvent_def clearInterval_def split: option.splits)

lemma opts_stopInternal: "opts (snd (stopInternal b p s)) q = opts s q"
  by (simp add: opts_def heap_stopInternal)

lemma namespace_of_stopInternal: "namespace_of (snd (stopInternal b p s)) q = namespace_of s q"
  by (simp add: namespace_of_def opts_stopInternal)

section \<open>stopAll\<close>

text \<open>
  The loop of \<open>stopAll\<close>. When an instance is stopped, the source decrements \<open>i\<close> and the
  loop header increments it again, so the next iteration looks at the same index.
\<close>

function stopAll_loop :: "string jsval \<Rightarrow> 'w service \<Rightarrow> nat \<Rightarrow> bool \<Rightarrow> bool \<times> 'w service" where
  "stopAll_loop ns s i stoppedSome =
     (if i < length (runningInstances s) then
        (let pageScrollInstance = runningInstances s ! i in
         if \<not> truthy_string ns \<or> namespace_of s pageScrollInstance = ns
         then stopAll_loop ns (snd (stopInternal True pageScrollInstance s)) i True
         else stopAll_loop ns s (Suc i) stoppedSome)
      else (stoppedSome, s))"
  by pat_completeness auto
termination
proof (relation "measure (\<lambda>(ns, s, i, b). length (runningInstances s) - i)")
  show "wf (measure (\<lambda>(ns, s, i, b). length (runningInstances s) - i))" by simp
next
  fix ns :: "string jsval" and s :: "'w service" and i :: nat and stoppedSome :: bool
    and x :: ref
  assume lt: "i < length (runningInstances s)" and x: "x = runningInstances s ! i"
  from lt x have "x \<in> set (runningInstances s)" by simp
  then have "length (remove1 x (runningInstances s)) < length (runningInstances s)"
    by (simp add: length_remove1) (cases "runningInstances s"; simp)
  with lt show "((ns, snd (stopInternal True x s), i, True), (ns, s, i, stoppedSome))
          \<in> measure (\<lambda>(ns, s, i, b). length (runningInstances s) - i)"
    by (simp add: runningInstances_stopInternal length_remove1)
next
  fix ns :: "string jsval" and s :: "'w service" and i :: nat and stoppedSome :: bool
    and x :: ref
  assume "i < length (runningInstances s)"
  then show "((ns, s, Suc i, stoppedSome), (ns, s, i, stoppedSome))
          \<in> measure (\<lambda>(ns, s, i, b). length (runningInstances s) - i)"
    by simp
qed

declare stopAll_loop.simps [simp del]

definition stopAll :: "string jsval \<Rightarrow> 'w service \<Rightarrow> bool \<times> 'w service" where
  "stopAll ns s =
     (if length (runningInstances s) > 0 then stopAll_loop ns s 0 False else (False, s))"

definition stop :: "ref \<Rightarrow> 'w service \<Rightarrow> bool \<times> 'w service" where
  "stop p s = stopInternal True p s"

text \<open>
  For the proofs: an instance matches the argument of \<open>stopAll\<close> when the condition of
  the loop holds for it, and \<open>stop_each\<close> runs the stop sequence on a list of instances
  in order. The loop stops exactly the matching instances, in the order of the list.
\<close>

definition ns_matches :: "string jsval \<Rightarrow> 'w service \<Rightarrow> ref \<Rightarrow> bool" where
  "ns_matches ns s q = (\<not> truthy_string ns \<or> namespace_of s q = ns)"

definition stop_each :: "ref list \<Rightarrow> 'w service \<Rightarrow> 'w service" where
  "stop_each qs s = fold (\<lambda>q t. snd (stopInternal True q t)) qs s"

lemma ns_matches_stopInternal: "ns_matches ns (snd (stopInternal b p s)) = ns_matches ns s"
  by (simp add: ns_matches_def fun_eq_iff namespace_of_stopInternal)

lemma stopAll_loop_fold:
  "\<forall>q\<in>set (take i (runningInstances s)). \<not> ns_matches ns s q \<Longrightarrow>
   stopAll_loop ns s i b =
     (b \<or> (\<exists>q\<in>set (drop i (runningInstances s)). ns_matches ns s q),
      stop_each (filter (ns_matches ns s) (drop i (runningInstances s))) s)"
proof (induction ns s i b rule: stopAll_loop.induct)
  case (1 ns s i b)
  let ?rs = "runningInstances s"
  show ?case
  proof (cases "i < length ?rs")
    case False
    then show ?thesis by (simp add: stopAll_loop.simps [of ns s i b] stop_each_def)
  next
    case lt: True
    let ?p = "?rs ! i"
    have drop_i: "drop i ?rs = ?p # drop (Suc i) ?rs"
      using lt by (simp add: Cons_nth_drop_Suc)
    show ?thesis
    proof (cases "ns_matches ns s ?p")
      case True
      let ?s' = "snd (stopInternal True ?p s)"
      from True "1.prems" have notin: "?p \<notin> set (take i ?rs)" by blast
      have "?rs = take i ?rs @ ?p # drop (Suc i) ?rs"
        using lt by (simp add: id_take_nth_drop [symmetric])
      then have "remove1 ?p ?rs = remove1 ?p (take i ?rs @ ?p # drop (Suc i) ?rs)" by simp
      also have "\<dots> = take i ?rs @ drop (Suc i) ?rs"
        using notin by (simp add: remove1_append)
      finally have rs': "runningInstances ?s' = take i ?rs @ drop (Suc i) ?rs"
        by (simp add: runningInstances_stopInternal)
      have len: "length (take i ?rs) = i" using lt by simp
      have take': "take i (runningInstances ?s') = take i ?rs"
        using lt by (simp add: rs')
      have drop': "drop i (runningInstances ?s') = drop (Suc i) ?rs"
        using lt by (simp add: rs')
      have pre: "\<forall>q\<in>set (take i (runningInstances ?s')). \<not> ns_matches ns ?s' q"
        using "1.prems" by (simp add: take' ns_matches_stopInternal)
      have unfold: "stopAll_loop ns s i b = stopAll_loop ns ?s' i True"
        using lt True by (simp add: stopAll_loop.simps [of ns s i b] ns_matches_def Let_def)
      have m: "\<not> truthy_string ns \<or> namespace_of s ?p = ns"
        using True by (simp add: ns_matches_def)
      have "stopAll_loop ns ?s' i True =
          (True, stop_each (filter (ns_matches ns ?s') (drop i (runningInstances ?s'))) ?s')"
        using "1.IH"(1) [OF lt refl m pre] by simp
      with unfold True show ?thesis
        by (simp add: drop' drop_i ns_matches_stopInternal stop_each_def)
    next
      case False
      have take_Suc: "take (Suc i) ?rs = take i ?rs @ [?p]"
        using lt by (simp add: take_Suc_conv_app_nth)
      have pre: "\<forall>q\<in>set (take (Suc i) ?rs). \<not> ns_matches ns s q"
        using "1.prems" False by (simp add: take_Suc)
      have unfold: "stopAll_loop ns s i b = stopAll_loop ns s (Suc i) b"
        using lt False by (simp add: stopAll_loop.simps [of ns s i b] ns_matches_def Let_def)
      have m: "\<not> (\<not> truthy_string ns \<or> namespace_of s ?p = ns)"
        using False by (simp add: ns_matches_def)
      have "stopAll_loop ns s (Suc i) b =
          (b \<or> (\<exists>q\<in>set (drop (Suc i) ?rs). ns_matches ns s q),
           stop_each (filter (ns_matches ns s) (drop (Suc i) ?rs)) s)"
        using "1.IH"(2) [OF lt refl m pre] by simp
      with unfold False show ?thesis
        by (simp add: drop_i)
    qed
  qed
qed

lemma stopAll_fold:
  "stopAll ns s =
     ((\<exists>q\<in>set (runningInstances s). ns_matches ns s q),
      stop_each (filter (ns_matches ns s) (runningInstances s)) s)"
proof (cases "runningInstances s = []")
  case True
  then show ?thesis by (simp add: stopAll_def stop_each_def)
next
  case False
  then have "stopAll ns s = stopAll_loop ns s 0 False" by (simp add: stopAll_def)
  also have "\<dots> = (False \<or> (\<exists>q\<in>set (drop 0 (runningInstances s)). ns_matches ns s q),
      stop_each (filter (ns_matches ns s) (drop 0 (runningInstances s))) s)"
    by (rule stopAll_loop_fold) simp
  finally show ?thesis by simp
qed


lemma stop_each_Cons: "stop_each (q # qs) s = stop_each qs (snd (stopInternal True q s))"
  by (simp add: stop_each_def)

lemma stop_each_Nil: "stop_each [] s = s"
  by (simp add: stop_each_def)

lemma other_stop_each:
  "config (stop_each qs s) = config s"
  "world (stop_each qs s) = world s"
  "console (stop_each qs s) = console s"
  "nextTimer (stop_each qs s) = nextTimer s"
  by (induction qs arbitrary: s; simp add: stop_each_Nil stop_each_Cons other_stopInternal)+

lemma runningInstances_stop_each:
  "runningInstances (stop_each qs s) = fold remove1 qs (runningInstances s)"
  by (induction qs arbitrary: s)
    (simp_all add: stop_each_Nil stop_each_Cons runningInstances_stopInternal)

lemma fold_remove1_filter:
  "\<forall>y\<in>set pre. \<not> P y \<Longrightarrow>
   fold remove1 (filter P xs) (pre @ xs) = pre @ filter (\<lambda>x. \<not> P x) xs"
proof (induction xs arbitrary: pre)
  case Nil
  show ?case by simp
next
  case (Cons x xs)
  show ?case
  proof (cases "P x")
    case True
    with Cons.prems have "x \<notin> set pre" by blast
    then have "remove1 x (pre @ x # xs) = pre @ xs" by (simp add: remove1_append)
    with True Cons.IH [OF Cons.prems] show ?thesis by simp
  next
    case False
    with Cons.prems have "\<forall>y\<in>set (pre @ [x]). \<not> P y" by simp
    from Cons.IH [OF this] False show ?thesis by simp
  qed
qed

lemma heap_stop_each:
  "heap (stop_each qs s) r =
     (if r \<in> set qs then (heap s r)\<lparr>timer := None, interruptListenersAttached := False\<rparr>
      else heap s r)"
  by (induction qs arbitrary: s) (simp_all add: stop_each_Nil stop_each_Cons heap_stopInternal)

lemma fired_stop_each:
  "distinct qs \<Longrightarrow>
   fired (stop_each qs s) =
     fired s @ map (\<lambda>q. (q, False)) (filter (\<lambda>q. timer (heap s q) \<noteq> None) qs)"
proof (induction qs arbitrary: s)
  case Nil
  show ?case by (simp add: stop_each_Nil)
next
  case (Cons q qs)
  let ?s1 = "snd (stopInternal True q s)"
  from Cons.prems have d: "distinct qs" and nq: "q \<notin> set qs" by simp_all
  have same: "filter (\<lambda>r. timer (heap ?s1 r) \<noteq> None) qs = filter (\<lambda>r. timer (heap s r) \<noteq> None) qs"
    using nq by (intro filter_cong) (auto simp: heap_stopInternal)
  have "fired (stop_each (q # qs) s) =
      fired ?s1 @ map (\<lambda>q. (q, False)) (filter (\<lambda>r. timer (heap ?s1 r) \<noteq> None) qs)"
    by (simp only: stop_each_Cons Cons.IH [OF d])
  also have "\<dots> = fired ?s1 @ map (\<lambda>q. (q, False)) (filter (\<lambda>r. timer (heap s r) \<noteq> None) qs)"
    by (simp only: same)
  finally show ?case
    by (cases "timer (heap s q)") (simp_all add: fired_stopInternal)
qed

lemma activeTimers_stop_each:
  "activeTimers (stop_each qs s) =
     filter (\<lambda>h. \<forall>q\<in>set qs. timer (heap s q) \<noteq> Some h) (activeTimers s)"
proof (induction qs arbitrary: s)
  case Nil
  show ?case by (simp add: stop_each_Nil)
next
  case (Cons q qs)
  show ?case
    by (auto simp: stop_each_Cons Cons.IH activeTimers_stopInternal heap_stopInternal
        removeAll_filter_not_eq intro!: filter_cong split: option.splits)
qed

lemma stopAll_result:
  "fst (stopAll ns s) = (\<exists>q\<in>set (runningInstances s). ns_matches ns s q)"
  by (simp add: stopAll_fold)

lemma stopAll_state:
  "snd (stopAll ns s) = stop_each (filter (ns_matches ns s) (runningInstances s)) s"
  by (simp add: stopAll_fold)

lemma runningInstances_stopAll:
  "runningInstances (snd (stopAll ns s)) =
     filter (\<lambda>q. \<not> ns_matches ns s q) (runningInstances s)"
  using fold_remove1_filter [of "[]" "ns_matches ns s" "runningInstances s"]
  by (simp add: stopAll_state runningInstances_stop_each)

lemma heap_stopAll:
  "heap (snd (stopAll ns s)) r =
     (if r \<in> set (runningInstances s) \<and> ns_matches ns s r
      then (heap s r)\<lparr>timer := None, interruptListenersAttached := False\<rparr>
      else heap s r)"
  by (simp add: stopAll_state heap_stop_each)

lemma fired_stopAll:
  "distinct (runningInstances s) \<Longrightarrow>
   fired (snd (stopAll ns s)) =
     fired s @ map (\<lambda>q. (q, False))
       (filter (\<lambda>q. timer (heap s q) \<noteq> None) (filter (ns_matches ns s) (runningInstances s)))"
  by (simp add: stopAll_state fired_stop_each)

lemma activeTimers_stopAll:
  "activeTimers (snd (stopAll ns s)) =
     filter (\<lambda>h. \<forall>q\<in>set (runningInstances s). ns_matches ns s q \<longrightarrow> timer (heap s q) \<noteq> Some h)
       (activeTimers s)"
  by (auto simp: stopAll_state activeTimers_stop_each intro!: filter_cong)

lemma other_stopAll:
  "config (snd (stopAll ns s)) = config s"
  "world (snd (stopAll ns s)) = world s"
  "console (snd (stopAll ns s)) = console s"
  "nextTimer (snd (stopAll ns s)) = nextTimer s"
  by (simp_all add: stopAll_state other_stop_each)

lemma opts_stopAll: "opts (snd (stopAll ns s)) q = opts s q"
  by (simp add: opts_def heap_stopAll)

lemma namespace_of_stopAll: "namespace_of (snd (stopAll ns s)) q = namespace_of s q"
  by (simp add: namespace_of_def opts_stopAll)

lemma stopInternal_idle:
  assumes "timer (heap s p) = None" "p \<notin> set (runningInstances s)"
    "\<not> interruptListenersAttached (heap s p)"
  shows "stopInternal b p s = (False, s)"
proof -
  from assms(2) have "indexOf (runningInstances s) p < 0" by (simp add: indexOf_neg)
  with assms(1,3) show ?thesis by (simp add: stopInternal_def Let_def)
qed

section \<open>start\<close>

text \<open>The spread \<open>{...a, ...b}\<close>: a key of \<open>b\<close> wins, whatever its value.\<close>

definition spread :: "'a option \<Rightarrow> 'a option \<Rightarrow> 'a option" where
  "spread a b = (case b of None \<Rightarrow> a | Some v \<Rightarrow> Some v)"

definition merge_options :: "options \<Rightarrow> options \<Rightarrow> options" where
  "merge_options a b =
     \<lparr>namespace = spread (namespace a) (namespace b),
      duration = spread (duration a) (duration b),
      speed = spread (speed a) (speed b),
      interruptible = spread (interruptible a) (interruptible b),
      isVerticalScrolling = spread (isVerticalScrolling a) (isVerticalScrolling b),
      minScrollDistance = spread (minScrollDistance a) (minScrollDistance b),
      interval = spread (interval a) (interval b),
      logLevel = spread (logLevel a) (logLevel b),
      interruptKeys = spread (interruptKeys a) (interruptKeys b),
      scrollViews = spread (scrollViews a) (scrollViews b),
      easingLogic = spread (easingLogic a) (easingLogic b)\<rparr>"

text \<open>\<open>this.config._logLevel >= 2 || (this.config._logLevel >= 1 && isDevMode())\<close>\<close>

definition log_enabled :: "'w env \<Rightarrow> options \<Rightarrow> bool" where
  "log_enabled env c =
     (js_ge (to_number (rd (logLevel c))) (Fin 2) \<or>
      (js_ge (to_number (rd (logLevel c))) (Fin 1) \<and> isDevMode env))"

definition console_out :: "'w env \<Rightarrow> console_entry \<Rightarrow> 'w service \<Rightarrow> 'w service" where
  "console_out env e s = (if log_enabled env (config s) then s\<lparr>console := console s @ [e]\<rparr> else s)"

text \<open>
  The \<open>forEach\<close> over the scroll views that looks for the start position: the value of
  the first view whose scroll property is truthy. The state of the loop is the flag
  \<open>startScrollPositionFound\<close> and the position found so far.
\<close>

fun startScrollPosition_forEach ::
  "'w env \<Rightarrow> 'w \<Rightarrow> options \<Rightarrow> view jsval list \<Rightarrow> bool \<Rightarrow> jsnum \<Rightarrow> bool \<times> jsnum" where
  "startScrollPosition_forEach env w opt [] found pos = (found, pos)"
| "startScrollPosition_forEach env w opt (Val scrollingView # vs) found pos =
     (let scrollPosition = getScrollPropertyValue env w opt scrollingView in
      if \<not> found \<and> truthy_number scrollPosition
      then startScrollPosition_forEach env w opt vs True (to_number scrollPosition)
      else startScrollPosition_forEach env w opt vs found pos)"
| "startScrollPosition_forEach env w opt (v # vs) found pos =
     startScrollPosition_forEach env w opt vs found pos"

definition startScrollPosition_of :: "'w env \<Rightarrow> 'w \<Rightarrow> options \<Rightarrow> view jsval list \<Rightarrow> jsnum" where
  "startScrollPosition_of env w opt views =
     snd (startScrollPosition_forEach env w opt views False (Fin 0))"

definition targetScrollPosition_of :: "'w env \<Rightarrow> 'w \<Rightarrow> options \<Rightarrow> jsnum" where
  "targetScrollPosition_of env w opt =
     (let pageScrollOffset = getCurrentOffset env w opt;
          scrollTargetPosition = extractScrollTargetPosition env w opt
      in js_round (js_sub (if truthy_bool (rd (isVerticalScrolling opt))
                           then fst scrollTargetPosition else snd scrollTargetPosition)
                          pageScrollOffset))"

definition distanceToScroll_of :: "'w env \<Rightarrow> 'w \<Rightarrow> options \<Rightarrow> view jsval list \<Rightarrow> jsnum" where
  "distanceToScroll_of env w opt views =
     js_sub (targetScrollPosition_of env w opt) (startScrollPosition_of env w opt views)"

text \<open>The execution duration: the duration option, unless a speed is given and no
  duration is.\<close>

definition executionDuration_of :: "options \<Rightarrow> jsnum \<Rightarrow> jsnum jsval" where
  "executionDuration_of opt distance =
     (if given (rd (speed opt)) \<and> \<not> given (rd (duration opt))
      then Val (js_mul (js_div (js_abs distance) (to_number (rd (speed opt)))) (Fin 1000))
      else rd (duration opt))"

definition allReadyAtDestination :: "options \<Rightarrow> jsnum \<Rightarrow> bool" where
  "allReadyAtDestination opt distance =
     js_lt (js_abs distance) (to_number (rd (minScrollDistance opt)))"

definition tooShortInterval :: "options \<Rightarrow> jsnum \<Rightarrow> bool" where
  "tooShortInterval opt distance =
     js_le (to_number (executionDuration_of opt distance)) (to_number (rd (interval opt)))"

text \<open>Applying a position to the scroll views changes the world; the boolean is what
  \<open>setScrollPosition\<close> returns.\<close>

definition apply_position :: "'w env \<Rightarrow> ref \<Rightarrow> jsnum \<Rightarrow> 'w service \<Rightarrow> bool \<times> 'w service" where
  "apply_position env p pos s =
     (let r = setScrollPosition env (world s) (opts s p) pos in (fst r, s\<lparr>world := snd r\<rparr>))"

text \<open>The end of \<open>start\<close>: listeners, times, the timer, and the registration.\<close>

definition start_animation :: "'w env \<Rightarrow> jsnum \<Rightarrow> ref \<Rightarrow> 'w service \<Rightarrow> 'w service" where
  "start_animation env now p s =
     (let s1 = (if truthy_bool (rd (interruptible (opts s p)))
                then attachInterruptListeners p s else s);
          s2 = update_instance p (\<lambda>i. i\<lparr>startTime := now\<rparr>) s1;
          s3 = update_instance p
                 (\<lambda>i. i\<lparr>endTime := js_add (startTime i) (to_number (executionDuration i))\<rparr>) s2;
          r = setInterval s3;
          s4 = update_instance p (\<lambda>i. i\<lparr>timer := Some (fst r)\<rparr>) (snd r)
      in s4\<lparr>runningInstances := runningInstances s4 @ [p]\<rparr>)"

text \<open>\<open>start\<close> from the search for the start position on, for a non-empty list of
  scroll views.\<close>

definition start_scroll :: "'w env \<Rightarrow> jsnum \<Rightarrow> ref \<Rightarrow> view jsval list \<Rightarrow> 'w service \<Rightarrow> 'w service" where
  "start_scroll env now p views s =
     (let startPos = startScrollPosition_of env (world s) (opts s p) views;
          targetPos = targetScrollPosition_of env (world s) (opts s p);
          distance = js_sub targetPos startPos;
          s1 = update_instance p
                 (\<lambda>i. i\<lparr>startScrollPosition := startPos, targetScrollPosition := targetPos,
                        distanceToScroll := distance\<rparr>) s
      in if isNaN distance then fireEvent p False (console_out env (Log TargetNotFound) s1)
         else
           (let s2 = update_instance p
                       (\<lambda>i. i\<lparr>executionDuration := executionDuration_of (opts s p) distance\<rparr>) s1
            in if allReadyAtDestination (opts s p) distance \<or> tooShortInterval (opts s p) distance
               then
                 (let s3 = console_out env
                             (if allReadyAtDestination (opts s p) distance
                              then Log AlreadyAtDestination else Log DurationTooShort) s2;
                      s4 = snd (apply_position env p targetPos s3)
                  in fireEvent p True s4)
               else start_animation env now p s2))"

text \<open>The first statement of \<open>start\<close>: the service's configuration is merged under the
  instance's options.\<close>

definition merge_instance_options :: "ref \<Rightarrow> 'w service \<Rightarrow> 'w service" where
  "merge_instance_options p s =
     update_instance p
       (\<lambda>i. i\<lparr>pageScrollOptions := merge_options (config s) (pageScrollOptions i)\<rparr>) s"

definition start :: "'w env \<Rightarrow> jsnum \<Rightarrow> ref \<Rightarrow> 'w service \<Rightarrow> 'w service result" where
  "start env now p s =
     (let s1 = merge_instance_options p s;
          s2 = snd (stopAll (namespace_of s1 p) s1)
      in case rd (scrollViews (opts s2 p)) of
           Undefined \<Rightarrow> Threw TypeError s2
         | Null \<Rightarrow> Returned (console_out env (Warn NoScrollViews) s2)
         | Val views \<Rightarrow>
             if length views = 0 then Returned (console_out env (Warn NoScrollViews) s2)
             else Returned (start_scroll env now p views s2))"

text \<open>The state in which \<open>start\<close> goes on after its first two statements: the options
  are merged and \<open>stopAll\<close> has run on the merged namespace.\<close>

definition after_stopAll :: "ref \<Rightarrow> 'w service \<Rightarrow> 'w service" where
  "after_stopAll p s =
     snd (stopAll (namespace_of (merge_instance_options p s) p) (merge_instance_options p s))"

section \<open>The tick handler\<close>

text \<open>
  The first half of the callback given to \<open>setInterval\<close>: the new scroll position and
  whether the end time has been reached. Calling an \<open>easingLogic\<close> that is not a function
  throws.
\<close>

definition tick_step :: "jsnum \<Rightarrow> PageScrollInstance \<Rightarrow> error + jsnum \<times> bool" where
  "tick_step currentTime i =
     (if js_le (endTime i) currentTime then Inr (targetScrollPosition i, True)
      else (case rd (easingLogic (pageScrollOptions i)) of
              Val f \<Rightarrow> Inr (js_round (f (js_sub currentTime (startTime i))
                              (startScrollPosition i) (distanceToScroll i)
                              (executionDuration i)), False)
            | _ \<Rightarrow> Inl TypeError))"

text \<open>The callback, run with the current time: the position is applied to the scroll
  views, and the stop sequence runs when the end time is reached or the write failed.\<close>

definition tick :: "'w env \<Rightarrow> jsnum \<Rightarrow> ref \<Rightarrow> 'w service \<Rightarrow> 'w service result" where
  "tick env currentTime p s =
     (case tick_step currentTime (heap s p) of
        Inl e \<Rightarrow> Threw e s
      | Inr (newScrollPosition, stopNow0) \<Rightarrow>
          (let r = apply_position env p newScrollPosition s;
               stopNow = (stopNow0 \<or> \<not> fst r)
           in if stopNow then Returned (snd (stopInternal False p (snd r)))
              else Returned (snd r)))"

section \<open>The interrupt reporter\<close>

text \<open>\<open>scrollViews.some(v => v.contains(node))\<close>: stops at the first view that contains
  the node; calling \<open>contains\<close> on an entry that is \<open>undefined\<close> or \<open>null\<close> throws.\<close>

fun views_some_contains :: "'w env \<Rightarrow> 'w \<Rightarrow> node \<Rightarrow> view jsval list \<Rightarrow> error + bool" where
  "views_some_contains env w n [] = Inr False"
| "views_some_contains env w n (Val v # vs) =
     (if contains env w v n then Inr True else views_some_contains env w n vs)"
| "views_some_contains env w n (v # vs) = Inl TypeError"

definition shouldStop :: "'w env \<Rightarrow> event \<Rightarrow> ref \<Rightarrow> 'w service \<Rightarrow> error + bool" where
  "shouldStop env ev p s =
     (if etype ev = ''keyup'' then
        (case rd (interruptKeys (config s)) of
           Val keys \<Rightarrow> Inr (keyCode ev \<in> set keys)
         | _ \<Rightarrow> Inl TypeError)
      else if etype ev = ''mousedown'' then
        (case rd (scrollViews (opts s p)) of
           Val views \<Rightarrow> views_some_contains env (world s) (target ev) views
         | _ \<Rightarrow> Inl TypeError)
      else Inr True)"

definition report :: "'w env \<Rightarrow> event \<Rightarrow> ref \<Rightarrow> 'w service \<Rightarrow> 'w service result" where
  "report env ev p s =
     (if \<not> truthy_bool (rd (interruptible (opts s p))) then Returned s
      else case shouldStop env ev p s of
             Inl e \<Rightarrow> Threw e s
           | Inr b \<Rightarrow> if b then Returned (snd (stopAll (namespace_of s p) s)) else Returned s)"

section \<open>The constructor\<close>

text \<open>The constructor merges the custom configuration over the default one, warns when
  the static counter says that a service exists already, and starts with no running
  instance. The instance objects and the world are those of the program.\<close>

definition new_service ::
  "'w env \<Rightarrow> nat \<Rightarrow> options \<Rightarrow> options \<Rightarrow> (ref \<Rightarrow> PageScrollInstance) \<Rightarrow> 'w \<Rightarrow> 'w service \<times> nat" where
  "new_service env instanceCounter defaultPageScrollConfig customConfig h w =
     (let c = merge_options defaultPageScrollConfig customConfig;
          s = \<lparr>config = c, runningInstances = [], heap = h, activeTimers = [], nextTimer = 1,
               fired = [], console = [], world = w\<rparr>
      in ((if instanceCounter > 0 \<and> log_enabled env c
           then s\<lparr>console := console s @ [Warn ServiceExists]\<rparr> else s),
          instanceCounter + 1))"

section \<open>Consistent states\<close>

text \<open>
  An instance is in a consistent condition when it is registered as running exactly if
  its timer is set, and has interrupt listeners only while its timer is set. The
  running set is in order when it holds no instance twice and each of its instances
  has a timer of its own that the environment still runs.
\<close>

definition consistent :: "'w service \<Rightarrow> ref \<Rightarrow> bool" where
  "consistent s p =
     ((p \<in> set (runningInstances s) \<longleftrightarrow> timer (heap s p) \<noteq> None) \<and>
      (interruptListenersAttached (heap s p) \<longrightarrow> timer (heap s p) \<noteq> None))"

definition timers_wf :: "'w service \<Rightarrow> bool" where
  "timers_wf s =
     (distinct (runningInstances s) \<and>
      (\<forall>p\<in>set (runningInstances s).
         case timer (heap s p) of None \<Rightarrow> False
         | Some h \<Rightarrow> h \<in> set (activeTimers s) \<and> h < nextTimer s) \<and>
      distinct (map (\<lambda>p. timer (heap s p)) (runningInstances s)))"

lemma timers_wf_timer:
  "timers_wf s \<Longrightarrow> q \<in> set (runningInstances s) \<Longrightarrow>
   \<exists>h. timer (heap s q) = Some h \<and> h \<in> set (activeTimers s) \<and> h < nextTimer s"
  by (auto simp: timers_wf_def split: option.splits)

lemma timers_wf_inj:
  "timers_wf s \<Longrightarrow> q \<in> set (runningInstances s) \<Longrightarrow> r \<in> set (runningInstances s) \<Longrightarrow>
   timer (heap s q) = timer (heap s r) \<Longrightarrow> q = r"
  by (auto simp: timers_wf_def distinct_map dest: inj_onD)

section \<open>Facts about start\<close>

lemma merge_instance_options_simps:
  "config (merge_instance_options p s) = config s"
  "runningInstances (merge_instance_options p s) = runningInstances s"
  "activeTimers (merge_instance_options p s) = activeTimers s"
  "nextTimer (merge_instance_options p s) = nextTimer s"
  "fired (merge_instance_options p s) = fired s"
  "console (merge_instance_options p s) = console s"
  "world (merge_instance_options p s) = world s"
  "heap (merge_instance_options p s) q =
     (if q = p then (heap s p)\<lparr>pageScrollOptions := merge_options (config s) (opts s p)\<rparr>
      else heap s q)"
  by (simp_all add: merge_instance_options_def update_instance_def opts_def)

lemma opts_merge_instance_options:
  "opts (merge_instance_options p s) q =
     (if q = p then merge_options (config s) (opts s p) else opts s q)"
  by (simp add: opts_def merge_instance_options_simps)

lemma timer_merge_instance_options:
  "timer (heap (merge_instance_options p s) q) = timer (heap s q)"
  "interruptListenersAttached (heap (merge_instance_options p s) q) =
     interruptListenersAttached (heap s q)"
  by (simp_all add: merge_instance_options_simps)

lemma opts_after_stopAll:
  "opts (after_stopAll p s) q =
     (if q = p then merge_options (config s) (opts s p) else opts s q)"
  by (simp add: after_stopAll_def opts_stopAll opts_merge_instance_options)

lemma after_stopAll_simps:
  "config (after_stopAll p s) = config s"
  "world (after_stopAll p s) = world s"
  "console (after_stopAll p s) = console s"
  "nextTimer (after_stopAll p s) = nextTimer s"
  by (simp_all add: after_stopAll_def other_stopAll merge_instance_options_simps)

lemma start_unfold:
  "start env now p s =
     (case rd (scrollViews (merge_options (config s) (opts s p))) of
        Undefined \<Rightarrow> Threw TypeError (after_stopAll p s)
      | Null \<Rightarrow> Returned (console_out env (Warn NoScrollViews) (after_stopAll p s))
      | Val views \<Rightarrow>
          if views = [] then Returned (console_out env (Warn NoScrollViews) (after_stopAll p s))
          else Returned (start_scroll env now p views (after_stopAll p s)))"
proof -
  have o: "opts (after_stopAll p s) p = merge_options (config s) (opts s p)"
    by (simp add: opts_after_stopAll)
  show ?thesis
    unfolding start_def Let_def after_stopAll_def [symmetric] o
    by (simp split: jsval.splits)
qed

lemma console_out_simps:
  "config (console_out env e s) = config s"
  "runningInstances (console_out env e s) = runningInstances s"
  "heap (console_out env e s) = heap s"
  "activeTimers (console_out env e s) = activeTimers s"
  "nextTimer (console_out env e s) = nextTimer s"
  "fired (console_out env e s) = fired s"
  "world (console_out env e s) = world s"
  "opts (console_out env e s) = opts s"
  by (simp_all add: console_out_def opts_def fun_eq_iff)

text \<open>
  The three ways in which \<open>start\<close> ends once it has scroll views: the target cannot be
  resolved (the distance is \<open>NaN\<close>), it jumps to the target, or it sets up the animation.
\<close>

definition unresolvable :: "'w env \<Rightarrow> 'w \<Rightarrow> options \<Rightarrow> view jsval list \<Rightarrow> bool" where
  "unresolvable env w opt views = isNaN (distanceToScroll_of env w opt views)"

definition jumps :: "'w env \<Rightarrow> 'w \<Rightarrow> options \<Rightarrow> view jsval list \<Rightarrow> bool" where
  "jumps env w opt views =
     (\<not> isNaN (distanceToScroll_of env w opt views) \<and>
      (allReadyAtDestination opt (distanceToScroll_of env w opt views) \<or>
       tooShortInterval opt (distanceToScroll_of env w opt views)))"

definition animates :: "'w env \<Rightarrow> 'w \<Rightarrow> options \<Rightarrow> view jsval list \<Rightarrow> bool" where
  "animates env w opt views =
     (\<not> isNaN (distanceToScroll_of env w opt views) \<and>
      \<not> allReadyAtDestination opt (distanceToScroll_of env w opt views) \<and>
      \<not> tooShortInterval opt (distanceToScroll_of env w opt views))"

lemmas start_scroll_defs = start_scroll_def Let_def distanceToScroll_of_def unresolvable_def
  jumps_def animates_def update_instance_def fireEvent_def console_out_def apply_position_def
  start_animation_def setInterval_def attachInterruptListeners_def opts_def

lemma fired_start_scroll:
  "fired (start_scroll env now p views s) =
     fired s @ (if unresolvable env (world s) (opts s p) views then [(p, False)]
                else if jumps env (world s) (opts s p) views then [(p, True)] else [])"
  by (simp add: start_scroll_defs)

lemma runningInstances_start_scroll:
  "runningInstances (start_scroll env now p views s) =
     runningInstances s @ (if animates env (world s) (opts s p) views then [p] else [])"
  by (simp add: start_scroll_defs)

lemma activeTimers_start_scroll:
  "activeTimers (start_scroll env now p views s) =
     activeTimers s @ (if animates env (world s) (opts s p) views then [nextTimer s] else [])"
  by (simp add: start_scroll_defs)

lemma nextTimer_start_scroll:
  "nextTimer (start_scroll env now p views s) =
     (if animates env (world s) (opts s p) views then Suc (nextTimer s) else nextTimer s)"
  by (simp add: start_scroll_defs)

lemma world_start_scroll:
  "world (start_scroll env now p views s) =
     (if jumps env (world s) (opts s p) views
      then snd (setScrollPosition env (world s) (opts s p)
                  (targetScrollPosition_of env (world s) (opts s p)))
      else world s)"
  by (simp add: start_scroll_defs)

lemma config_start_scroll: "config (start_scroll env now p views s) = config s"
  by (simp add: start_scroll_defs)

lemma heap_start_scroll_other:
  "q \<noteq> p \<Longrightarrow> heap (start_scroll env now p views s) q = heap s q"
  by (simp add: start_scroll_defs)

lemma opts_start_scroll: "opts (start_scroll env now p views s) q = opts s q"
  by (simp add: start_scroll_defs)

lemma timer_start_scroll:
  "timer (heap (start_scroll env now p views s) p) =
     (if animates env (world s) (opts s p) views then Some (nextTimer s) else timer (heap s p))"
  by (simp add: start_scroll_defs)

lemma attached_start_scroll:
  "interruptListenersAttached (heap (start_scroll env now p views s) p) =
     (if animates env (world s) (opts s p) views \<and> truthy_bool (rd (interruptible (opts s p)))
      then True else interruptListenersAttached (heap s p))"
  by (simp add: start_scroll_defs)

lemma executionDuration_start_scroll:
  "executionDuration (heap (start_scroll env now p views s) p) =
     (if unresolvable env (world s) (opts s p) views then executionDuration (heap s p)
      else executionDuration_of (opts s p) (distanceToScroll_of env (world s) (opts s p) views))"
  by (simp add: start_scroll_defs)

section \<open>Facts about the tick handler\<close>

lemma apply_position_simps:
  "config (snd (apply_position env p pos s)) = config s"
  "runningInstances (snd (apply_position env p pos s)) = runningInstances s"
  "heap (snd (apply_position env p pos s)) = heap s"
  "activeTimers (snd (apply_position env p pos s)) = activeTimers s"
  "nextTimer (snd (apply_position env p pos s)) = nextTimer s"
  "fired (snd (apply_position env p pos s)) = fired s"
  "console (snd (apply_position env p pos s)) = console s"
  "world (snd (apply_position env p pos s)) = snd (setScrollPosition env (world s) (opts s p) pos)"
  "fst (apply_position env p pos s) = fst (setScrollPosition env (world s) (opts s p) pos)"
  by (simp_all add: apply_position_def Let_def)

lemma tick_stops:
  assumes "tick_step now (heap s p) = Inr (pos, stopNow0)"
    and "stopNow0 \<or> \<not> fst (setScrollPosition env (world s) (opts s p) pos)"
  shows "tick env now p s = Returned (snd (stopInternal False p (snd (apply_position env p pos s))))"
  using assms by (auto simp: tick_def Let_def apply_position_simps)

lemma tick_continues:
  assumes "tick_step now (heap s p) = Inr (pos, False)"
    and "fst (setScrollPosition env (world s) (opts s p) pos)"
  shows "tick env now p s = Returned (snd (apply_position env p pos s))"
  using assms by (auto simp: tick_def Let_def apply_position_simps)

definition merged_options :: "'w service \<Rightarrow> ref \<Rightarrow> options" where
  "merged_options s p = merge_options (config s) (opts s p)"

lemma start_views:
  assumes "rd (scrollViews (merged_options s p)) = Val views" "views \<noteq> []"
  shows "start env now p s = Returned (start_scroll env now p views (after_stopAll p s))"
  using assms by (simp add: start_unfold merged_options_def)


lemma after_stopAll_world_opts:
  "world (after_stopAll p s) = world s"
  "opts (after_stopAll p s) p = merged_options s p"
  by (simp_all add: after_stopAll_simps opts_after_stopAll merged_options_def)

lemma ns_matches_self:
  "ns_matches (namespace_of s p) s p"
  by (simp add: ns_matches_def)

lemma runningInstances_after_stopAll:
  "runningInstances (after_stopAll p s) =
     filter (\<lambda>q. q \<noteq> p \<and> truthy_string (rd (namespace (merged_options s p))) \<and>
                 namespace_of s q \<noteq> rd (namespace (merged_options s p)))
       (runningInstances s)"
  unfolding after_stopAll_def runningInstances_stopAll merge_instance_options_simps
  by (rule filter_cong)
    (auto simp: ns_matches_def namespace_of_def opts_merge_instance_options merged_options_def)

lemma p_notin_after_stopAll: "p \<notin> set (runningInstances (after_stopAll p s))"
  by (simp add: runningInstances_after_stopAll)

lemma heap_after_stopAll_p:
  "timer (heap (after_stopAll p s) p) =
     (if p \<in> set (runningInstances s) then None else timer (heap s p))"
  by (simp add: after_stopAll_def heap_stopAll merge_instance_options_simps ns_matches_self)

lemma fired_after_stopAll:
  "distinct (runningInstances s) \<Longrightarrow>
   fired (after_stopAll p s) =
     fired s @ map (\<lambda>q. (q, False))
       (filter (\<lambda>q. timer (heap s q) \<noteq> None \<and>
                    (q = p \<or> \<not> truthy_string (rd (namespace (merged_options s p))) \<or>
                     namespace_of s q = rd (namespace (merged_options s p))))
          (runningInstances s))"
proof -
  assume d: "distinct (runningInstances s)"
  let ?s1 = "merge_instance_options p s"
  have d1: "distinct (runningInstances ?s1)" using d by (simp add: merge_instance_options_simps)
  have "filter (\<lambda>q. timer (heap ?s1 q) \<noteq> None)
      (filter (ns_matches (namespace_of ?s1 p) ?s1) (runningInstances ?s1)) =
    filter (\<lambda>q. timer (heap s q) \<noteq> None \<and>
                    (q = p \<or> \<not> truthy_string (rd (namespace (merged_options s p))) \<or>
                     namespace_of s q = rd (namespace (merged_options s p))))
          (runningInstances s)"
    unfolding filter_filter merge_instance_options_simps
    by (rule filter_cong)
      (auto simp: ns_matches_def namespace_of_def opts_merge_instance_options merged_options_def
        merge_instance_options_simps)
  with fired_stopAll [OF d1, of "namespace_of ?s1 p"] show ?thesis
    by (simp add: after_stopAll_def merge_instance_options_simps)
qed

lemma ns_matches_merged:
  "ns_matches (namespace_of (merge_instance_options p s) p) (merge_instance_options p s) q =
     (q = p \<or> \<not> truthy_string (rd (namespace (merged_options s p))) \<or>
      namespace_of s q = rd (namespace (merged_options s p)))"
  by (auto simp: ns_matches_def namespace_of_def opts_merge_instance_options merged_options_def)

lemma activeTimers_after_stopAll:
  "activeTimers (after_stopAll p s) =
     filter (\<lambda>h. \<forall>q\<in>set (runningInstances s).
                  (q = p \<or> \<not> truthy_string (rd (namespace (merged_options s p))) \<or>
                   namespace_of s q = rd (namespace (merged_options s p))) \<longrightarrow>
                  timer (heap s q) \<noteq> Some h)
       (activeTimers s)"
  unfolding after_stopAll_def activeTimers_stopAll ns_matches_merged
  by (rule filter_cong) (auto simp: merge_instance_options_simps)


definition merged_namespace :: "'w service \<Rightarrow> ref \<Rightarrow> string jsval" where
  "merged_namespace s p = rd (namespace (merged_options s p))"

definition ns_unique :: "'w service \<Rightarrow> bool" where
  "ns_unique s = distinct (map (namespace_of s) (runningInstances s))"

lemma start_state_cases:
  "state_of (start env now p s) = after_stopAll p s \<or>
   state_of (start env now p s) = console_out env (Warn NoScrollViews) (after_stopAll p s) \<or>
   (\<exists>views. state_of (start env now p s) = start_scroll env now p views (after_stopAll p s))"
  by (cases "rd (scrollViews (merge_options (config s) (opts s p)))") (auto simp: start_unfold)

lemma heap_start_other:
  "q \<noteq> p \<Longrightarrow> heap (state_of (start env now p s)) q = heap (after_stopAll p s) q"
  using start_state_cases [of env now p s]
  by (auto simp: console_out_simps heap_start_scroll_other)

lemma opts_start: "opts (state_of (start env now p s)) q = opts (after_stopAll p s) q"
  using start_state_cases [of env now p s]
  by (auto simp: console_out_simps opts_start_scroll)

lemma namespace_of_start:
  "namespace_of (state_of (start env now p s)) q =
     (if q = p then merged_namespace s p else namespace_of s q)"
  by (simp add: namespace_of_def opts_start opts_after_stopAll merged_namespace_def
      merged_options_def)

lemma runningInstances_start:
  "runningInstances (state_of (start env now p s)) = runningInstances (after_stopAll p s) \<or>
   runningInstances (state_of (start env now p s)) = runningInstances (after_stopAll p s) @ [p]"
  using start_state_cases [of env now p s]
  by (auto simp: console_out_simps runningInstances_start_scroll)

lemma fired_start_prefix:
  "\<exists>evs. fired (state_of (start env now p s)) = fired (after_stopAll p s) @ evs"
  using start_state_cases [of env now p s]
  by (auto simp: console_out_simps fired_start_scroll)

lemma timers_wf_all_timers:
  "timers_wf s \<Longrightarrow> filter (\<lambda>q. timer (heap s q) \<noteq> None \<and> P q) (runningInstances s) =
     filter P (runningInstances s)"
  by (rule filter_cong) (auto dest: timers_wf_timer)

lemma timers_wf_distinct: "timers_wf s \<Longrightarrow> distinct (runningInstances s)"
  by (simp add: timers_wf_def)

lemma views_some_contains_outside:
  "\<forall>v. Val v \<in> set views \<longrightarrow> \<not> contains env w v n \<Longrightarrow>
   views_some_contains env w n views \<noteq> Inr True"
  by (induction env w n views rule: views_some_contains.induct) auto

lemma views_some_contains_inside:
  "Undefined \<notin> set views \<Longrightarrow> Null \<notin> set views \<Longrightarrow>
   \<exists>v. Val v \<in> set views \<and> contains env w v n \<Longrightarrow>
   views_some_contains env w n views = Inr True"
  by (induction env w n views rule: views_some_contains.induct) auto

lemma report_unchanged:
  "shouldStop env ev p s \<noteq> Inr True \<Longrightarrow> state_of (report env ev p s) = s"
  by (cases "shouldStop env ev p s") (auto simp: report_def)

lemma report_stops:
  "truthy_bool (rd (interruptible (opts s p))) \<Longrightarrow> shouldStop env ev p s = Inr True \<Longrightarrow>
   report env ev p s = Returned (snd (stopAll (namespace_of s p) s))"
  by (simp add: report_def)

text \<open>
  The two consistency conditions together, for all instances, are an invariant of the
  service.
\<close>

definition service_inv :: "'w service \<Rightarrow> bool" where
  "service_inv s = (timers_wf s \<and> (\<forall>p. consistent s p))"

lemma service_inv_frame:
  assumes "runningInstances s' = runningInstances s"
    and "\<And>q. timer (heap s' q) = timer (heap s q)"
    and "\<And>q. interruptListenersAttached (heap s' q) = interruptListenersAttached (heap s q)"
    and "activeTimers s' = activeTimers s" and "nextTimer s' = nextTimer s"
  shows "service_inv s' = service_inv s"
  using assms by (simp add: service_inv_def timers_wf_def consistent_def cong: option.case_cong)

lemma distinct_map_remove1: "distinct (map f xs) \<Longrightarrow> distinct (map f (remove1 x xs))"
  by (induction xs) (auto dest: subsetD [OF set_remove1_subset])

lemma service_inv_stopInternal:
  assumes "service_inv s"
  shows "service_inv (snd (stopInternal b p s))"
proof -
  let ?s' = "snd (stopInternal b p s)"
  from assms have wf: "timers_wf s" and c: "\<And>q. consistent s q" by (simp_all add: service_inv_def)
  from wf have d: "distinct (runningInstances s)" by (simp add: timers_wf_def)
  have rs: "runningInstances ?s' = remove1 p (runningInstances s)"
    by (rule runningInstances_stopInternal)
  have set_rs: "set (runningInstances ?s') = set (runningInstances s) - {p}"
    using d by (simp add: rs)
  have heap_other: "\<And>q. q \<noteq> p \<Longrightarrow> heap ?s' q = heap s q"
    by (simp add: heap_stopInternal)
  have heap_p: "timer (heap ?s' p) = None" "\<not> interruptListenersAttached (heap ?s' p)"
    by (simp_all add: heap_stopInternal)
  have d': "distinct (runningInstances ?s')" using d by (simp add: rs)
  have timers: "\<forall>q\<in>set (runningInstances ?s').
      case timer (heap ?s' q) of None \<Rightarrow> False
      | Some h \<Rightarrow> h \<in> set (activeTimers ?s') \<and> h < nextTimer ?s'"
  proof
    fix q assume "q \<in> set (runningInstances ?s')"
    then have q: "q \<in> set (runningInstances s)" and np: "q \<noteq> p" by (simp_all add: set_rs)
    from timers_wf_timer [OF wf q] obtain h where
      h: "timer (heap s q) = Some h" "h \<in> set (activeTimers s)" "h < nextTimer s" by blast
    have "h \<in> set (activeTimers ?s')"
    proof (cases "timer (heap s p)")
      case None
      with h show ?thesis by (simp add: activeTimers_stopInternal)
    next
      case (Some hp)
      with c [of p] have p: "p \<in> set (runningInstances s)" by (simp add: consistent_def)
      have "hp \<noteq> h"
      proof
        assume "hp = h"
        with Some h have "timer (heap s q) = timer (heap s p)" by simp
        from timers_wf_inj [OF wf q p this] np show False by simp
      qed
      with Some h show ?thesis by (simp add: activeTimers_stopInternal)
    qed
    with h np show "case timer (heap ?s' q) of None \<Rightarrow> False
      | Some h \<Rightarrow> h \<in> set (activeTimers ?s') \<and> h < nextTimer ?s'"
      by (simp add: heap_other other_stopInternal)
  qed
  have eq: "map (\<lambda>q. timer (heap ?s' q)) (remove1 p (runningInstances s)) =
      map (\<lambda>q. timer (heap s q)) (remove1 p (runningInstances s))"
    by (rule map_cong) (use d in \<open>auto simp: heap_other\<close>)
  have dm: "distinct (map (\<lambda>q. timer (heap s q)) (remove1 p (runningInstances s)))"
    using wf by (simp add: timers_wf_def distinct_map_remove1)
  have inj: "distinct (map (\<lambda>q. timer (heap ?s' q)) (runningInstances ?s'))"
    by (simp only: rs eq dm)
  have "\<And>q. consistent ?s' q"
  proof -
    fix q show "consistent ?s' q"
    proof (cases "q = p")
      case True
      with heap_p show ?thesis by (simp add: consistent_def set_rs)
    next
      case False
      with c [of q] show ?thesis by (simp add: consistent_def set_rs heap_other)
    qed
  qed
  with d' timers inj show ?thesis by (simp add: service_inv_def timers_wf_def)
qed

lemma service_inv_stop_each: "service_inv s \<Longrightarrow> service_inv (stop_each qs s)"
  by (induction qs arbitrary: s) (simp_all add: stop_each_Nil stop_each_Cons service_inv_stopInternal)

lemma service_inv_stopAll: "service_inv s \<Longrightarrow> service_inv (snd (stopAll ns s))"
  by (simp add: stopAll_state service_inv_stop_each)

lemma service_inv_stop: "service_inv s \<Longrightarrow> service_inv (snd (stop p s))"
  by (simp add: stop_def service_inv_stopInternal)

lemma service_inv_merge_instance_options: "service_inv (merge_instance_options p s) = service_inv s"
  by (rule service_inv_frame) (simp_all add: merge_instance_options_simps)

lemma service_inv_after_stopAll: "service_inv s \<Longrightarrow> service_inv (after_stopAll p s)"
  by (simp add: after_stopAll_def service_inv_stopAll service_inv_merge_instance_options)

lemma service_inv_console_out: "service_inv (console_out env e s) = service_inv s"
  by (rule service_inv_frame) (simp_all add: console_out_simps)

lemma service_inv_apply_position: "service_inv (snd (apply_position env p pos s)) = service_inv s"
  by (rule service_inv_frame) (simp_all add: apply_position_simps)


lemma service_inv_fireEvent: "service_inv (fireEvent p b s) = service_inv s"
  by (rule service_inv_frame) (simp_all add: fireEvent_def)

lemma service_inv_start_scroll:
  assumes i: "service_inv s" and np: "p \<notin> set (runningInstances s)"
  shows "service_inv (start_scroll env now p views s)"
proof (cases "animates env (world s) (opts s p) views")
  case False
  have "service_inv (start_scroll env now p views s) = service_inv s"
  proof (rule service_inv_frame)
    fix q
    show "timer (heap (start_scroll env now p views s) q) = timer (heap s q)"
      using False by (cases "q = p") (simp_all add: timer_start_scroll heap_start_scroll_other)
    show "interruptListenersAttached (heap (start_scroll env now p views s) q) =
        interruptListenersAttached (heap s q)"
      using False by (cases "q = p") (simp_all add: attached_start_scroll heap_start_scroll_other)
  qed (use False in \<open>simp_all add: runningInstances_start_scroll activeTimers_start_scroll
      nextTimer_start_scroll\<close>)
  with i show ?thesis by simp
next
  case True
  let ?s' = "start_scroll env now p views s"
  from i have wf: "timers_wf s" and c: "\<And>q. consistent s q" by (simp_all add: service_inv_def)
  have rs: "runningInstances ?s' = runningInstances s @ [p]"
    using True by (simp add: runningInstances_start_scroll)
  have tm: "\<And>q. timer (heap ?s' q) = (if q = p then Some (nextTimer s) else timer (heap s q))"
    using True by (simp add: timer_start_scroll heap_start_scroll_other)
  have tm_p: "timer (heap ?s' p) = Some (nextTimer s)"
    by (simp add: tm)
  have at: "\<And>q. q \<noteq> p \<Longrightarrow>
      interruptListenersAttached (heap ?s' q) = interruptListenersAttached (heap s q)"
    by (simp add: heap_start_scroll_other)
  have act: "activeTimers ?s' = activeTimers s @ [nextTimer s]"
    using True by (simp add: activeTimers_start_scroll)
  have nt: "nextTimer ?s' = Suc (nextTimer s)"
    using True by (simp add: nextTimer_start_scroll)
  have old: "\<And>q. q \<in> set (runningInstances s) \<Longrightarrow>
      \<exists>h. timer (heap s q) = Some h \<and> h \<in> set (activeTimers s) \<and> h < nextTimer s \<and> q \<noteq> p"
    using timers_wf_timer [OF wf] np by blast
  have d: "distinct (runningInstances ?s')"
    using wf np by (simp add: rs timers_wf_def)
  have timers: "\<forall>q\<in>set (runningInstances ?s').
      case timer (heap ?s' q) of None \<Rightarrow> False
      | Some h \<Rightarrow> h \<in> set (activeTimers ?s') \<and> h < nextTimer ?s'"
  proof
    fix q assume "q \<in> set (runningInstances ?s')"
    then consider "q = p" | "q \<in> set (runningInstances s)" by (auto simp: rs)
    then show "case timer (heap ?s' q) of None \<Rightarrow> False
      | Some h \<Rightarrow> h \<in> set (activeTimers ?s') \<and> h < nextTimer ?s'"
    proof cases
      case 1
      then show ?thesis by (simp add: tm act nt)
    next
      case 2
      from old [OF 2] show ?thesis by (auto simp: tm act nt)
    qed
  qed
  have eq: "map (\<lambda>q. timer (heap ?s' q)) (runningInstances s) =
      map (\<lambda>q. timer (heap s q)) (runningInstances s)"
    by (rule map_cong) (use np in \<open>auto simp: tm\<close>)
  have fresh: "Some (nextTimer s) \<notin> set (map (\<lambda>q. timer (heap s q)) (runningInstances s))"
    using old by fastforce
  have "map (\<lambda>q. timer (heap ?s' q)) (runningInstances ?s') =
      map (\<lambda>q. timer (heap s q)) (runningInstances s) @ [Some (nextTimer s)]"
    by (simp only: rs map_append eq list.map tm_p)
  with wf fresh have inj: "distinct (map (\<lambda>q. timer (heap ?s' q)) (runningInstances ?s'))"
    by (simp add: timers_wf_def)
  have "\<And>q. consistent ?s' q"
  proof -
    fix q show "consistent ?s' q"
    proof (cases "q = p")
      case True
      then show ?thesis by (simp add: consistent_def rs tm)
    next
      case False
      with c [of q] show ?thesis by (simp add: consistent_def rs tm at)
    qed
  qed
  with d timers inj show ?thesis by (simp add: service_inv_def timers_wf_def)
qed

lemma service_inv_start:
  assumes "service_inv s"
  shows "service_inv (state_of (start env now p s))"
proof -
  from assms have i: "service_inv (after_stopAll p s)" by (rule service_inv_after_stopAll)
  from start_state_cases [of env now p s] show ?thesis
  proof (elim disjE exE)
    fix views
    assume "state_of (start env now p s) = start_scroll env now p views (after_stopAll p s)"
    with service_inv_start_scroll [OF i p_notin_after_stopAll] show ?thesis by simp
  qed (simp_all add: i service_inv_console_out)
qed

lemma service_inv_tick: "service_inv s \<Longrightarrow> service_inv (state_of (tick env now p s))"
  by (auto simp: tick_def Let_def service_inv_apply_position service_inv_stopInternal
      split: sum.splits prod.splits)

lemma service_inv_report: "service_inv s \<Longrightarrow> service_inv (state_of (report env ev p s))"
  by (auto simp: report_def service_inv_stopAll split: sum.splits)

lemma service_inv_new_service:
  assumes "\<And>p. timer (h p) = None \<and> \<not> interruptListenersAttached (h p)"
  shows "service_inv (fst (new_service env n d c h w))"
  using assms by (simp add: new_service_def Let_def service_inv_def timers_wf_def consistent_def)


text \<open>Pairwise different namespaces in the running set are an invariant as well.\<close>

lemma ns_unique_frame:
  assumes "set (runningInstances s') \<subseteq> set (runningInstances s)"
    and "distinct (runningInstances s) \<Longrightarrow> distinct (runningInstances s')"
    and "\<And>q. namespace_of s' q = namespace_of s q"
  shows "ns_unique s \<Longrightarrow> ns_unique s'"
proof -
  assume u: "ns_unique s"
  then have d: "distinct (runningInstances s)" and i: "inj_on (namespace_of s) (set (runningInstances s))"
    by (simp_all add: ns_unique_def distinct_map)
  from assms(3) have "namespace_of s' = namespace_of s" by (simp add: fun_eq_iff)
  with assms(1) assms(2) [OF d] i show "ns_unique s'"
    by (auto simp: ns_unique_def distinct_map intro: inj_on_subset)
qed

lemma ns_unique_stopInternal: "ns_unique s \<Longrightarrow> ns_unique (snd (stopInternal b p s))"
  by (rule ns_unique_frame [of _ s])
    (auto simp: runningInstances_stopInternal namespace_of_stopInternal
      dest: subsetD [OF set_remove1_subset])

lemma ns_unique_stop_each: "ns_unique s \<Longrightarrow> ns_unique (stop_each qs s)"
  by (induction qs arbitrary: s) (simp_all add: stop_each_Nil stop_each_Cons ns_unique_stopInternal)

lemma ns_unique_stopAll: "ns_unique s \<Longrightarrow> ns_unique (snd (stopAll ns s))"
  by (simp add: stopAll_state ns_unique_stop_each)

lemma ns_unique_apply_position: "ns_unique s \<Longrightarrow> ns_unique (snd (apply_position env p pos s))"
  by (rule ns_unique_frame [of _ s]) (simp_all add: apply_position_simps namespace_of_def opts_def)

lemma ns_unique_tick: "ns_unique s \<Longrightarrow> ns_unique (state_of (tick env now p s))"
  by (auto simp: tick_def Let_def ns_unique_apply_position ns_unique_stopInternal
      split: sum.splits prod.splits)

lemma ns_unique_report: "ns_unique s \<Longrightarrow> ns_unique (state_of (report env ev p s))"
  by (auto simp: report_def ns_unique_stopAll split: sum.splits)

lemma start_namespace_fresh:
  assumes "q \<in> set (runningInstances (state_of (start env now p s)))" "q \<noteq> p"
  shows "namespace_of (state_of (start env now p s)) q \<noteq>
     namespace_of (state_of (start env now p s)) p"
proof -
  from runningInstances_start [of env now p s] assms
  have "q \<in> set (runningInstances (after_stopAll p s))" by auto
  then have "namespace_of s q \<noteq> merged_namespace s p"
    by (simp add: runningInstances_after_stopAll merged_namespace_def)
  with assms(2) show ?thesis by (simp add: namespace_of_start)
qed

lemma ns_unique_start:
  assumes u: "ns_unique s"
  shows "ns_unique (state_of (start env now p s))"
proof -
  let ?ns = "merged_namespace s p"
  let ?s2 = "after_stopAll p s"
  let ?s' = "state_of (start env now p s)"
  have running: "runningInstances ?s2 =
      filter (\<lambda>q. q \<noteq> p \<and> truthy_string ?ns \<and> namespace_of s q \<noteq> ?ns) (runningInstances s)"
    by (simp add: runningInstances_after_stopAll merged_namespace_def)
  have same: "map (namespace_of ?s') (runningInstances ?s2) =
      map (namespace_of s) (runningInstances ?s2)"
    by (rule map_cong) (auto simp: namespace_of_start p_notin_after_stopAll)
  have d2: "distinct (map (namespace_of s) (runningInstances ?s2))"
    unfolding running using u by (simp add: ns_unique_def distinct_map_filter)
  have fresh: "?ns \<notin> set (map (namespace_of s) (runningInstances ?s2))"
    by (auto simp: running)
  from runningInstances_start [of env now p s] show "ns_unique ?s'"
  proof
    assume r: "runningInstances ?s' = runningInstances ?s2"
    have "map (namespace_of ?s') (runningInstances ?s') =
        map (namespace_of s) (runningInstances ?s2)"
      by (simp only: r same)
    with d2 show ?thesis by (simp only: ns_unique_def)
  next
    assume r: "runningInstances ?s' = runningInstances ?s2 @ [p]"
    have p: "namespace_of ?s' p = ?ns" by (simp add: namespace_of_start)
    have "map (namespace_of ?s') (runningInstances ?s') =
        map (namespace_of ?s') (runningInstances ?s2) @ [namespace_of ?s' p]"
      by (simp only: r map_append list.map)
    then have "map (namespace_of ?s') (runningInstances ?s') =
        map (namespace_of s) (runningInstances ?s2) @ [?ns]"
      by (simp only: same p)
    with d2 fresh show ?thesis by (simp add: ns_unique_def)
  qed
qed

lemma activeTimers_start:
  "activeTimers (state_of (start env now p s)) = activeTimers (after_stopAll p s) \<or>
   activeTimers (state_of (start env now p s)) = activeTimers (after_stopAll p s) @ [nextTimer s]"
  using start_state_cases [of env now p s]
  by (auto simp: console_out_simps activeTimers_start_scroll after_stopAll_simps)

lemma cleared_after_stopAll:
  assumes "q \<in> set (runningInstances s)"
    and "q = p \<or> \<not> truthy_string (merged_namespace s p) \<or>
         namespace_of s q = merged_namespace s p"
    and "timer (heap s q) = Some h"
  shows "h \<notin> set (activeTimers (after_stopAll p s))"
  using assms by (auto simp: activeTimers_after_stopAll merged_namespace_def)

lemma cleared_start:
  assumes wf: "timers_wf s" and q: "q \<in> set (runningInstances s)"
    and m: "q = p \<or> \<not> truthy_string (merged_namespace s p) \<or>
         namespace_of s q = merged_namespace s p"
    and h: "timer (heap s q) = Some h"
  shows "h \<notin> set (activeTimers (state_of (start env now p s)))"
proof -
  from timers_wf_timer [OF wf q] h have "h \<noteq> nextTimer s" by auto
  with cleared_after_stopAll [OF q m h] activeTimers_start [of env now p s]
  show ?thesis by auto
qed

lemma stopped_after_stopAll:
  assumes "q \<in> set (runningInstances s)"
    and "q = p \<or> \<not> truthy_string (merged_namespace s p) \<or>
         namespace_of s q = merged_namespace s p"
  shows "timer (heap (after_stopAll p s) q) = None"
    and "\<not> interruptListenersAttached (heap (after_stopAll p s) q)"
    and "q \<notin> set (runningInstances (after_stopAll p s))"
  using assms
  by (auto simp: after_stopAll_def heap_stopAll runningInstances_stopAll ns_matches_merged
      merge_instance_options_simps merged_namespace_def)

lemma cleared_stopAll:
  assumes "q \<in> set (runningInstances s)" and "ns_matches ns s q" and "timer (heap s q) = Some h"
  shows "h \<notin> set (activeTimers (snd (stopAll ns s)))"
  using assms by (auto simp: activeTimers_stopAll)

section \<open>Reachable states\<close>

text \<open>
  The states that a service goes through: it is constructed while no instance has a
  timer or listeners; then instances are started and stopped, timers that are set
  tick, interrupt events arrive for instances with listeners, and the caller may give
  new options to an instance that is not running, and scroll the views.
\<close>

inductive reachable :: "'w env \<Rightarrow> 'w service \<Rightarrow> bool" for env :: "'w env" where
  reachable_new:
    "(\<And>p. timer (h p) = None \<and> \<not> interruptListenersAttached (h p)) \<Longrightarrow>
     reachable env (fst (new_service env n d c h w))"
| reachable_start:
    "reachable env s \<Longrightarrow> reachable env (state_of (start env now p s))"
| reachable_stop:
    "reachable env s \<Longrightarrow> reachable env (snd (stop p s))"
| reachable_stopAll:
    "reachable env s \<Longrightarrow> reachable env (snd (stopAll ns s))"
| reachable_tick:
    "reachable env s \<Longrightarrow> timer (heap s p) = Some t \<Longrightarrow> t \<in> set (activeTimers s) \<Longrightarrow>
     reachable env (state_of (tick env now p s))"
| reachable_report:
    "reachable env s \<Longrightarrow> interruptListenersAttached (heap s p) \<Longrightarrow>
     reachable env (state_of (report env ev p s))"
| reachable_options:
    "reachable env s \<Longrightarrow> timer (heap s p) = None \<Longrightarrow>
     reachable env (update_instance p (\<lambda>i. i\<lparr>pageScrollOptions := opt\<rparr>) s)"
| reachable_scrolled:
    "reachable env s \<Longrightarrow> reachable env (s\<lparr>world := w\<rparr>)"

lemma reachable_invariants:
  "reachable env s \<Longrightarrow> service_inv s \<and> ns_unique s"
proof (induction rule: reachable.induct)
  case (reachable_new h n d c w)
  then show ?case
    by (simp add: service_inv_new_service) (simp add: new_service_def Let_def ns_unique_def)
next
  case (reachable_start s now p)
  then show ?case by (simp add: service_inv_start ns_unique_start)
next
  case (reachable_stop s p)
  then show ?case by (simp add: stop_def service_inv_stopInternal ns_unique_stopInternal)
next
  case (reachable_stopAll s ns)
  then show ?case by (simp add: service_inv_stopAll ns_unique_stopAll)
next
  case (reachable_tick s p t now)
  then show ?case by (simp add: service_inv_tick ns_unique_tick)
next
  case (reachable_report s p ev)
  then show ?case by (simp add: service_inv_report ns_unique_report)
next
  case (reachable_options s p opt)
  let ?s' = "update_instance p (\<lambda>i. i\<lparr>pageScrollOptions := opt\<rparr>) s"
  from reachable_options have i: "service_inv s" and u: "ns_unique s" by simp_all
  have "service_inv ?s' = service_inv s"
    by (rule service_inv_frame) (simp_all add: update_instance_def)
  moreover from i reachable_options.hyps(2) have np: "p \<notin> set (runningInstances s)"
    by (simp add: service_inv_def consistent_def)
  have "map (namespace_of ?s') (runningInstances ?s') = map (namespace_of s) (runningInstances s)"
    by (rule map_cong) (use np in \<open>auto simp: update_instance_def namespace_of_def opts_def\<close>)
  with u have "ns_unique ?s'" by (simp add: ns_unique_def)
  ultimately show ?case using i by simp
next
  case (reachable_scrolled s w)
  have "service_inv (s\<lparr>world := w\<rparr>) = service_inv s"
    by (rule service_inv_frame) simp_all
  moreover have "namespace_of (s\<lparr>world := w\<rparr>) = namespace_of s"
    by (simp add: namespace_of_def opts_def fun_eq_iff)
  then have "ns_unique (s\<lparr>world := w\<rparr>) = ns_unique s"
    by (simp add: ns_unique_def)
  ultimately show ?case using reachable_scrolled by simp
qed


lemma reachable_consistent:
  "reachable env s \<Longrightarrow> timers_wf s \<and> consistent s p \<and> ns_unique s"
  using reachable_invariants [of env s] by (simp add: service_inv_def)

section \<open>Runs of the service\<close>

































section \<open>A small concrete service\<close>

text \<open>
  One scroll view (number 0) whose scroll offset is the world; the target is at 500.
  Instances 11 and 14 are running in the namespace \<open>a\<close> and instance 12 in the namespace
  \<open>b\<close>; every other instance is at rest, and instance 15 has an empty list of scroll
  views. In the second environment no write to a scroll view works.
\<close>

definition demo_easing :: easing where
  "demo_easing t b c d = js_add b (js_div (js_mul c t) (to_number d))"

definition demo_config :: options where
  "demo_config =
     \<lparr>namespace = None, duration = Some (Val (Fin 1000)), speed = None,
      interruptible = Some (Val True), isVerticalScrolling = Some (Val True),
      minScrollDistance = Some (Val (Fin 2)), interval = Some (Val (Fin 10)),
      logLevel = Some (Val (Fin 0)), interruptKeys = Some (Val [27, 32]),
      scrollViews = None, easingLogic = Some (Val demo_easing)\<rparr>"

definition demo_options :: "string jsval \<Rightarrow> options" where
  "demo_options ns = demo_config\<lparr>namespace := Some ns, scrollViews := Some (Val [Val 0])\<rparr>"

definition demo_instance :: "string jsval \<Rightarrow> nat option \<Rightarrow> PageScrollInstance" where
  "demo_instance ns t =
     \<lparr>pageScrollOptions = demo_options ns, startScrollPosition = Fin 0,
      targetScrollPosition = Fin 500, distanceToScroll = Fin 500,
      executionDuration = Val (Fin 1000), startTime = Fin 0, endTime = Fin 1000,
      timer = t, interruptListenersAttached = (t \<noteq> None)\<rparr>"

definition demo_heap :: "ref \<Rightarrow> PageScrollInstance" where
  "demo_heap r =
     (if r = 11 then demo_instance (Val ''a'') (Some 2)
      else if r = 12 then demo_instance (Val ''b'') (Some 3)
      else if r = 13 then demo_instance (Val ''a'') None
      else if r = 14 then demo_instance (Val ''a'') (Some 4)
      else if r = 15 then (demo_instance (Val ''c'') None)
             \<lparr>pageScrollOptions := (demo_options (Val ''c''))\<lparr>scrollViews := Some (Val [])\<rparr>\<rparr>
      else demo_instance Undefined None)"

definition demo_running :: "jsnum service" where
  "demo_running =
     \<lparr>config = demo_config, runningInstances = [11, 14, 12], heap = demo_heap,
      activeTimers = [2, 3, 4], nextTimer = 5, fired = [], console = [], world = Fin 0\<rparr>"

definition demo_env :: "jsnum env" where
  "demo_env =
     \<lparr>isDevMode = False,
      getScrollPropertyValue = (\<lambda>w opt v. Val w),
      getCurrentOffset = (\<lambda>w opt. Fin 0),
      extractScrollTargetPosition = (\<lambda>w opt. (Fin 500, Fin 0)),
      setScrollPosition = (\<lambda>w opt pos. (True, pos)),
      contains = (\<lambda>w v n. n < 10)\<rparr>"

definition demo_env_locked :: "jsnum env" where
  "demo_env_locked = demo_env\<lparr>setScrollPosition := (\<lambda>w opt pos. (False, w))\<rparr>"

lemma demo_running_simps:
  "config demo_running = demo_config"
  "runningInstances demo_running = [11, 14, 12]"
  "heap demo_running = demo_heap"
  "activeTimers demo_running = [2, 3, 4]"
  "nextTimer demo_running = 5"
  "fired demo_running = []"
  "console demo_running = []"
  "world demo_running = Fin 0"
  by (simp_all add: demo_running_def)

lemma namespace_of_demo_running:
  "namespace_of demo_running q =
     (if q = 11 \<or> q = 13 \<or> q = 14 then Val ''a''
      else if q = 12 then Val ''b'' else if q = 15 then Val ''c'' else Undefined)"
  by (simp add: namespace_of_def opts_def demo_running_def demo_heap_def demo_instance_def
      demo_options_def)

lemma timers_wf_demo_running: "timers_wf demo_running"
  by (simp add: timers_wf_def demo_running_def demo_heap_def demo_instance_def)

definition demo_near :: "jsnum service" where
  "demo_near = demo_running\<lparr>world := Fin 499\<rparr>"

lemma demo_near_simps:
  "config demo_near = demo_config"
  "runningInstances demo_near = [11, 14, 12]"
  "heap demo_near = demo_heap"
  "activeTimers demo_near = [2, 3, 4]"
  "nextTimer demo_near = 5"
  "fired demo_near = []"
  "world demo_near = Fin 499"
  by (simp_all add: demo_near_def demo_running_def)

lemma merge_demo: "merge_options demo_config (demo_options ns) = demo_options ns"
  by (simp add: merge_options_def demo_options_def demo_config_def spread_def)

lemma merged_options_demo_13:
  "merged_options demo_near 13 = demo_options (Val ''a'')"
  "merged_options demo_running 13 = demo_options (Val ''a'')"
  by (simp_all add: merged_options_def opts_def demo_near_simps demo_running_simps demo_heap_def
      demo_instance_def merge_demo)

lemma namespace_of_demo_near: "namespace_of demo_near = namespace_of demo_running"
  by (simp add: namespace_of_def opts_def demo_near_simps demo_running_simps fun_eq_iff)

lemma timer_demo_heap:
  "timer (demo_heap q) =
     (if q = 11 then Some 2 else if q = 12 then Some 3 else if q = 14 then Some 4 else None)"
  by (simp add: demo_heap_def demo_instance_def)

definition demo_speed :: "jsnum service" where
  "demo_speed =
     demo_running\<lparr>heap := demo_heap
       (16 := (demo_instance (Val ''d'') None)
          \<lparr>pageScrollOptions := (demo_options (Val ''d''))
             \<lparr>duration := Some Undefined, speed := Some (Val (Fin 250))\<rparr>\<rparr>)\<rparr>"

lemma merged_options_demo_speed:
  "merged_options demo_speed 16 =
     (demo_options (Val ''d''))\<lparr>duration := Some Undefined, speed := Some (Val (Fin 250))\<rparr>"
  "merged_options demo_speed 13 = demo_options (Val ''a'')"
  by (simp_all add: merged_options_def opts_def demo_speed_def demo_running_simps demo_heap_def
      demo_instance_def merge_demo merge_options_def demo_options_def demo_config_def spread_def)

lemma distance_demo:
  "distanceToScroll_of demo_env (Fin 0) (demo_options ns\<lparr>duration := a, speed := b\<rparr>) [Val 0] = Fin 500"
  "distanceToScroll_of demo_env (Fin 0) (demo_options ns) [Val 0] = Fin 500"
  by (simp_all add: distanceToScroll_of_def targetScrollPosition_of_def startScrollPosition_of_def
      demo_env_def demo_options_def demo_config_def js_sub_def)

lemma distance_demo_near:
  "distanceToScroll_of demo_env_locked (Fin 499) (demo_options ns) [Val 0] = Fin 1"
  "distanceToScroll_of demo_env (Fin 499) (demo_options ns) [Val 0] = Fin 1"
  by (simp_all add: distanceToScroll_of_def targetScrollPosition_of_def startScrollPosition_of_def
      demo_env_def demo_env_locked_def demo_options_def demo_config_def js_sub_def)



definition demo_pair :: "jsnum service" where
  "demo_pair =
     demo_running\<lparr>runningInstances := [11, 12],
       heap := demo_heap(14 := demo_instance (Val ''a'') None), activeTimers := [2, 3]\<rparr>"

lemma demo_pair_simps:
  "config demo_pair = demo_config"
  "runningInstances demo_pair = [11, 12]"
  "activeTimers demo_pair = [2, 3]"
  "nextTimer demo_pair = 5"
  "fired demo_pair = []"
  "world demo_pair = Fin 0"
  by (simp_all add: demo_pair_def demo_running_def)

lemma namespace_of_demo_pair: "namespace_of demo_pair = namespace_of demo_running"
  by (simp add: namespace_of_def opts_def demo_pair_def demo_running_def demo_heap_def
      demo_instance_def fun_eq_iff)

lemma timer_demo_pair:
  "timer (heap demo_pair q) = (if q = 11 then Some 2 else if q = 12 then Some 3 else None)"
  by (simp add: demo_pair_def demo_running_def demo_heap_def demo_instance_def)

lemma timers_wf_demo_pair: "timers_wf demo_pair"
  by (simp add: timers_wf_def demo_pair_simps timer_demo_pair)

lemma merged_options_demo_pair_13: "merged_options demo_pair 13 = demo_options (Val ''a'')"
  by (simp add: merged_options_def opts_def demo_pair_def demo_running_def demo_heap_def
      demo_instance_def merge_demo)

lemma merged_options_demo_20:
  "merged_options demo_running 20 = demo_options Undefined"
  by (simp add: merged_options_def opts_def demo_running_simps demo_heap_def
      demo_instance_def merge_demo)

definition demo_fixed :: "jsnum service" where
  "demo_fixed =
     demo_running\<lparr>heap := demo_heap
       (11 := (demo_instance (Val ''a'') (Some 2))
          \<lparr>pageScrollOptions := (demo_options (Val ''a''))\<lparr>interruptible := Some (Val False)\<rparr>\<rparr>)\<rparr>"

lemma opts_demo_running_11: "opts demo_running 11 = demo_options (Val ''a'')"
  by (simp add: opts_def demo_running_simps demo_heap_def demo_instance_def)

definition demo_key :: "int \<Rightarrow> event" where
  "demo_key c = \<lparr>etype = ''keyup'', keyCode = c, target = 0\<rparr>"

definition demo_click :: "node \<Rightarrow> event" where
  "demo_click n = \<lparr>etype = ''mousedown'', keyCode = 0, target = n\<rparr>"

definition demo_null_options :: options where
  "demo_null_options = (demo_options (Val ''e''))\<lparr>scrollViews := Some (Val [Null, Val 0])\<rparr>"

lemma animates_demo_null: "animates demo_env (Fin 0) demo_null_options [Null, Val 0]"
  by (simp add: animates_def distanceToScroll_of_def targetScrollPosition_of_def
      startScrollPosition_of_def allReadyAtDestination_def tooShortInterval_def
      executionDuration_of_def demo_env_def demo_null_options_def demo_options_def
      demo_config_def js_sub_def)

definition no_options :: options where
  "no_options =
     \<lparr>namespace = None, duration = None, speed = None, interruptible = None,
      isVerticalScrolling = None, minScrollDistance = None, interval = None,
      logLevel = None, interruptKeys = None, scrollViews = None, easingLogic = None\<rparr>"

definition demo_fresh :: "jsnum service" where
  "demo_fresh =
     fst (new_service demo_env 0 demo_config no_options
       (\<lambda>r. (demo_instance (Val ''e'') None)\<lparr>pageScrollOptions := demo_null_options\<rparr>) (Fin 0))"

lemma demo_fresh_simps:
  "config demo_fresh = demo_config"
  "runningInstances demo_fresh = []"
  "world demo_fresh = Fin 0"
  "opts demo_fresh q = demo_null_options"
  by (simp_all add: demo_fresh_def new_service_def Let_def opts_def merge_options_def
      no_options_def demo_config_def spread_def)

lemma merged_options_demo_fresh: "merged_options demo_fresh 17 = demo_null_options"
  by (simp add: merged_options_def demo_fresh_simps)
    (simp add: demo_null_options_def merge_options_def demo_options_def demo_config_def
      spread_def)

lemma reachable_demo_fresh: "reachable demo_env demo_fresh"
  unfolding demo_fresh_def by (rule reachable_new) (simp add: demo_instance_def)

lemma reachable_demo_fresh_started:
  "reachable demo_env (state_of (start demo_env (Fin 0) 17 demo_fresh))"
  by (rule reachable_start) (rule reachable_demo_fresh)

section \<open>Properties of the service\<close>

text \<open>
  C1: in the tick handler, for an instance whose timer is set, both ways of being marked
  for stop run the stop sequence with interrupted = false, so the completion callback
  fires with success = true and the timer is cleared: when the current time has reached
  the end time, and when the position that the easing function gave could not be
  written to any scroll view.
\<close>

theorem tick_stop_reports_success:
  assumes running: "timer (heap s p) = Some h"
  shows "(js_le (endTime (heap s p)) now \<longrightarrow>
            tick env now p s =
              Returned (snd (stopInternal False p
                (snd (apply_position env p (targetScrollPosition (heap s p)) s)))) \<and>
            fired (state_of (tick env now p s)) = fired s @ [(p, True)] \<and>
            timer (heap (state_of (tick env now p s)) p) = None) \<and>
         (\<forall>pos. tick_step now (heap s p) = Inr (pos, False) \<and>
            \<not> fst (setScrollPosition env (world s) (opts s p) pos) \<longrightarrow>
            tick env now p s =
              Returned (snd (stopInternal False p (snd (apply_position env p pos s)))) \<and>
            fired (state_of (tick env now p s)) = fired s @ [(p, True)] \<and>
            timer (heap (state_of (tick env now p s)) p) = None)"
proof (intro conjI allI impI)
  assume e: "js_le (endTime (heap s p)) now"
  then have step: "tick_step now (heap s p) = Inr (targetScrollPosition (heap s p), True)"
    by (simp add: tick_step_def)
  from tick_stops [OF step]
  show t: "tick env now p s =
      Returned (snd (stopInternal False p
        (snd (apply_position env p (targetScrollPosition (heap s p)) s))))"
    by simp
  show "fired (state_of (tick env now p s)) = fired s @ [(p, True)]"
    using running by (simp add: t fired_stopInternal apply_position_simps)
  show "timer (heap (state_of (tick env now p s)) p) = None"
    by (simp add: t heap_stopInternal)
next
  fix pos
  assume a: "tick_step now (heap s p) = Inr (pos, False) \<and>
    \<not> fst (setScrollPosition env (world s) (opts s p) pos)"
  from tick_stops [of now s p pos False env] a
  show t: "tick env now p s = Returned (snd (stopInternal False p (snd (apply_position env p pos s))))"
    by simp
  show "fired (state_of (tick env now p s)) = fired s @ [(p, True)]"
    using running by (simp add: t fired_stopInternal apply_position_simps)
  show "timer (heap (state_of (tick env now p s)) p) = None"
    by (simp add: t heap_stopInternal)
qed

theorem tick_stop_reports_success_witness:
  "timer (heap demo_running 11) = Some 2 \<and>
   js_le (endTime (heap demo_running 11)) (Fin 1000) \<and>
   fired (state_of (tick demo_env (Fin 1000) 11 demo_running)) = [(11, True)] \<and>
   tick_step (Fin 500) (heap demo_running 11) = Inr (Fin 250, False) \<and>
   \<not> fst (setScrollPosition demo_env_locked (world demo_running) (opts demo_running 11) (Fin 250)) \<and>
   fired (state_of (tick demo_env_locked (Fin 500) 11 demo_running)) = [(11, True)]"
proof -
  have h: "heap demo_running 11 = demo_instance (Val ''a'') (Some 2)"
    by (simp add: demo_running_def demo_heap_def)
  have t: "timer (heap demo_running 11) = Some 2"
    by (simp add: h demo_instance_def)
  have e: "js_le (endTime (heap demo_running 11)) (Fin 1000)"
    by (simp add: h demo_instance_def)
  have step: "tick_step (Fin 500) (heap demo_running 11) = Inr (Fin 250, False)"
    by (simp add: h demo_instance_def tick_step_def demo_options_def demo_config_def
        demo_easing_def js_sub_def)
  have w: "\<not> fst (setScrollPosition demo_env_locked (world demo_running) (opts demo_running 11) (Fin 250))"
    by (simp add: demo_env_locked_def)
  from tick_stop_reports_success [OF t, of "Fin 1000" demo_env] e
  have a: "fired (state_of (tick demo_env (Fin 1000) 11 demo_running)) =
      fired demo_running @ [(11, True)]"
    by blast
  from tick_stop_reports_success [OF t, of "Fin 500" demo_env_locked] step w
  have b: "fired (state_of (tick demo_env_locked (Fin 500) 11 demo_running)) =
      fired demo_running @ [(11, True)]"
    by blast
  from a b t e step w show ?thesis by (simp add: demo_running_simps)
qed





text \<open>
  C3: \<open>start\<close> first runs \<open>stopAll\<close> on the namespace of the merged options, which stops,
  as interrupted, every running instance of that namespace (and the instance itself,
  if it was running): it leaves the running set, its timer is cleared in the
  environment and on the instance, its listeners are detached and it fires false. Only
  then does \<open>start\<close> go on, in the state that \<open>stopAll\<close> left, to look at the scroll views
  and to compute positions, distance and duration. So after \<open>start\<close> no other running
  instance has the namespace of the started one, and a running set whose namespaces
  were pairwise different still is so.
\<close>

theorem start_stops_namespace_first:
  "runningInstances (after_stopAll p s) =
     filter (\<lambda>q. q \<noteq> p \<and> truthy_string (merged_namespace s p) \<and>
                 namespace_of s q \<noteq> merged_namespace s p) (runningInstances s) \<and>
   (\<forall>q\<in>set (runningInstances s). q = p \<or> namespace_of s q = merged_namespace s p \<longrightarrow>
      timer (heap (after_stopAll p s) q) = None \<and>
      q \<notin> set (runningInstances (after_stopAll p s)) \<and>
      \<not> interruptListenersAttached (heap (after_stopAll p s) q) \<and>
      (\<forall>h. timer (heap s q) = Some h \<longrightarrow>
         h \<notin> set (activeTimers (after_stopAll p s)) \<and>
         (timers_wf s \<longrightarrow> h \<notin> set (activeTimers (state_of (start env now p s)))))) \<and>
   (timers_wf s \<longrightarrow>
      fired (after_stopAll p s) =
        fired s @ map (\<lambda>q. (q, False))
          (filter (\<lambda>q. q = p \<or> \<not> truthy_string (merged_namespace s p) \<or>
                       namespace_of s q = merged_namespace s p) (runningInstances s))) \<and>
   start env now p s =
     (case rd (scrollViews (merged_options s p)) of
        Undefined \<Rightarrow> Threw TypeError (after_stopAll p s)
      | Null \<Rightarrow> Returned (console_out env (Warn NoScrollViews) (after_stopAll p s))
      | Val views \<Rightarrow>
          if views = [] then Returned (console_out env (Warn NoScrollViews) (after_stopAll p s))
          else Returned (start_scroll env now p views (after_stopAll p s))) \<and>
   (\<forall>q\<in>set (runningInstances (state_of (start env now p s))). q \<noteq> p \<longrightarrow>
      namespace_of (state_of (start env now p s)) q \<noteq>
        namespace_of (state_of (start env now p s)) p) \<and>
   (ns_unique s \<longrightarrow> ns_unique (state_of (start env now p s)))"
proof -
  let ?ns = "merged_namespace s p"
  let ?s2 = "after_stopAll p s"
  let ?s' = "state_of (start env now p s)"
  have running: "runningInstances ?s2 =
      filter (\<lambda>q. q \<noteq> p \<and> truthy_string ?ns \<and> namespace_of s q \<noteq> ?ns) (runningInstances s)"
    by (simp add: runningInstances_after_stopAll merged_namespace_def)
  have stopped: "\<forall>q\<in>set (runningInstances s). q = p \<or> namespace_of s q = ?ns \<longrightarrow>
      timer (heap ?s2 q) = None \<and> q \<notin> set (runningInstances ?s2) \<and>
      \<not> interruptListenersAttached (heap ?s2 q) \<and>
      (\<forall>h. timer (heap s q) = Some h \<longrightarrow>
         h \<notin> set (activeTimers ?s2) \<and> (timers_wf s \<longrightarrow> h \<notin> set (activeTimers ?s')))"
  proof (intro ballI impI allI conjI)
    fix q assume q: "q \<in> set (runningInstances s)" and "q = p \<or> namespace_of s q = ?ns"
    then have m: "q = p \<or> \<not> truthy_string ?ns \<or> namespace_of s q = ?ns" by blast
    show "timer (heap ?s2 q) = None" "q \<notin> set (runningInstances ?s2)"
      "\<not> interruptListenersAttached (heap ?s2 q)"
      by (rule stopped_after_stopAll [OF q m])+
    fix h assume h: "timer (heap s q) = Some h"
    show "h \<notin> set (activeTimers ?s2)" by (rule cleared_after_stopAll [OF q m h])
    assume wf: "timers_wf s"
    show "h \<notin> set (activeTimers ?s')" by (rule cleared_start [OF wf q m h])
  qed
  have fired: "timers_wf s \<longrightarrow> fired ?s2 = fired s @ map (\<lambda>q. (q, False))
      (filter (\<lambda>q. q = p \<or> \<not> truthy_string ?ns \<or> namespace_of s q = ?ns) (runningInstances s))"
  proof
    assume wf: "timers_wf s"
    show "fired ?s2 = fired s @ map (\<lambda>q. (q, False))
      (filter (\<lambda>q. q = p \<or> \<not> truthy_string ?ns \<or> namespace_of s q = ?ns) (runningInstances s))"
      unfolding fired_after_stopAll [OF timers_wf_distinct [OF wf]] timers_wf_all_timers [OF wf]
      by (simp add: merged_namespace_def)
  qed
  have order: "start env now p s =
     (case rd (scrollViews (merged_options s p)) of
        Undefined \<Rightarrow> Threw TypeError ?s2
      | Null \<Rightarrow> Returned (console_out env (Warn NoScrollViews) ?s2)
      | Val views \<Rightarrow>
          if views = [] then Returned (console_out env (Warn NoScrollViews) ?s2)
          else Returned (start_scroll env now p views ?s2))"
    by (simp add: start_unfold merged_options_def)
  have others: "\<forall>q\<in>set (runningInstances ?s'). q \<noteq> p \<longrightarrow>
      namespace_of ?s' q \<noteq> namespace_of ?s' p"
    by (intro ballI impI) (rule start_namespace_fresh)
  have unique: "ns_unique s \<longrightarrow> ns_unique ?s'"
    by (intro impI) (rule ns_unique_start)
  from running stopped fired order others unique show ?thesis by blast
qed

theorem start_stops_namespace_first_witness:
  "timers_wf demo_pair \<and> ns_unique demo_pair \<and>
   namespace_of demo_pair 11 = merged_namespace demo_pair 13 \<and>
   runningInstances (after_stopAll 13 demo_pair) = [12] \<and>
   timer (heap demo_pair 11) = Some 2 \<and>
   timer (heap (after_stopAll 13 demo_pair) 11) = None \<and>
   2 \<notin> set (activeTimers (state_of (start demo_env (Fin 0) 13 demo_pair))) \<and>
   fired (after_stopAll 13 demo_pair) = [(11, False)] \<and>
   start demo_env (Fin 0) 13 demo_pair =
     Returned (start_scroll demo_env (Fin 0) 13 [Val 0] (after_stopAll 13 demo_pair)) \<and>
   ns_unique (state_of (start demo_env (Fin 0) 13 demo_pair))"
proof -
  have u: "ns_unique demo_pair"
    by (simp add: ns_unique_def demo_pair_simps namespace_of_demo_pair namespace_of_demo_running)
  have m: "merged_namespace demo_pair 13 = Val ''a''"
    by (simp add: merged_namespace_def merged_options_demo_pair_13 demo_options_def)
  have v: "rd (scrollViews (merged_options demo_pair 13)) = Val [Val 0]"
    by (simp add: merged_options_demo_pair_13 demo_options_def)
  note inst = start_stops_namespace_first [of 13 demo_pair demo_env "Fin 0"]
  note r = inst [THEN conjunct1]
  note t = inst [THEN conjunct2, THEN conjunct1]
  note f = inst [THEN conjunct2, THEN conjunct2, THEN conjunct1, THEN mp,
      OF timers_wf_demo_pair]
  note o = inst [THEN conjunct2, THEN conjunct2, THEN conjunct2, THEN conjunct1]
  note u' = inst [THEN conjunct2, THEN conjunct2, THEN conjunct2, THEN conjunct2,
      THEN conjunct2, THEN mp, OF u]
  have n11: "namespace_of demo_pair 11 = merged_namespace demo_pair 13"
    by (simp add: m namespace_of_demo_pair namespace_of_demo_running)
  have r': "runningInstances (after_stopAll 13 demo_pair) = [12]"
    by (simp add: r m demo_pair_simps namespace_of_demo_pair namespace_of_demo_running)
  have t11: "timer (heap demo_pair 11) = Some 2"
    by (simp add: timer_demo_pair)
  have in11: "11 \<in> set (runningInstances demo_pair)"
    by (simp add: demo_pair_simps)
  note t11' = t [THEN bspec, OF in11, THEN mp, OF disjI2, OF n11]
  note t' = t11' [THEN conjunct1]
  note a' = t11' [THEN conjunct2, THEN conjunct2, THEN conjunct2, THEN spec, THEN mp, OF t11,
      THEN conjunct2, THEN mp, OF timers_wf_demo_pair]
  have f': "fired (after_stopAll 13 demo_pair) = [(11, False)]"
    by (simp add: f m demo_pair_simps namespace_of_demo_pair namespace_of_demo_running)
  have o': "start demo_env (Fin 0) 13 demo_pair =
     Returned (start_scroll demo_env (Fin 0) 13 [Val 0] (after_stopAll 13 demo_pair))"
    by (simp add: o v)
  from timers_wf_demo_pair u n11 r' t11 t' a' f' o' u' show ?thesis by blast
qed

text \<open>
  C4: when \<open>start\<close> has scroll views and the absolute distance is below the minimum scroll
  distance, or the distance is a number and the execution duration is at most the tick
  interval, then \<open>start\<close> returns after it has applied the target position to the scroll
  views and fired the completion callback with true; it sets up no timer and adds
  nothing to the running set.
\<close>

theorem start_jumps_to_target:
  assumes views: "rd (scrollViews (merged_options s p)) = Val views" "views \<noteq> []"
    and short:
      "js_lt (js_abs (distanceToScroll_of env (world s) (merged_options s p) views))
         (to_number (rd (minScrollDistance (merged_options s p)))) \<or>
       \<not> isNaN (distanceToScroll_of env (world s) (merged_options s p) views) \<and>
       js_le (to_number (executionDuration_of (merged_options s p)
                (distanceToScroll_of env (world s) (merged_options s p) views)))
         (to_number (rd (interval (merged_options s p))))"
  shows "\<exists>s'. start env now p s = Returned s' \<and>
           world s' = snd (setScrollPosition env (world s) (merged_options s p)
                            (targetScrollPosition_of env (world s) (merged_options s p))) \<and>
           fired s' = fired (after_stopAll p s) @ [(p, True)] \<and>
           activeTimers s' = activeTimers (after_stopAll p s) \<and>
           nextTimer s' = nextTimer s \<and>
           (consistent s p \<longrightarrow> timer (heap s' p) = None) \<and>
           runningInstances s' = runningInstances (after_stopAll p s) \<and>
           p \<notin> set (runningInstances s')"
proof -
  let ?d = "distanceToScroll_of env (world s) (merged_options s p) views"
  have nan: "\<not> isNaN ?d"
    using short by (cases ?d) auto
  with short have j: "jumps env (world (after_stopAll p s)) (opts (after_stopAll p s) p) views"
    by (auto simp: jumps_def after_stopAll_world_opts allReadyAtDestination_def
        tooShortInterval_def)
  then have nu: "\<not> unresolvable env (world (after_stopAll p s)) (opts (after_stopAll p s) p) views"
    and na: "\<not> animates env (world (after_stopAll p s)) (opts (after_stopAll p s) p) views"
    by (auto simp: jumps_def unresolvable_def animates_def)
  let ?s' = "start_scroll env now p views (after_stopAll p s)"
  have "start env now p s = Returned ?s'" by (rule start_views [OF views])
  moreover have "world ?s' = snd (setScrollPosition env (world s) (merged_options s p)
      (targetScrollPosition_of env (world s) (merged_options s p)))"
    using j by (simp add: world_start_scroll after_stopAll_world_opts)
  moreover have "fired ?s' = fired (after_stopAll p s) @ [(p, True)]"
    using j nu by (simp add: fired_start_scroll)
  moreover have "activeTimers ?s' = activeTimers (after_stopAll p s)"
    using na by (simp add: activeTimers_start_scroll)
  moreover have "nextTimer ?s' = nextTimer s"
    using na by (simp add: nextTimer_start_scroll after_stopAll_simps)
  moreover have "consistent s p \<longrightarrow> timer (heap ?s' p) = None"
    using na by (auto simp: timer_start_scroll heap_after_stopAll_p consistent_def)
  moreover have "runningInstances ?s' = runningInstances (after_stopAll p s)"
    using na by (simp add: runningInstances_start_scroll)
  moreover have "p \<notin> set (runningInstances ?s')"
    using na by (simp add: runningInstances_start_scroll p_notin_after_stopAll)
  ultimately show ?thesis by blast
qed

theorem start_jumps_to_target_witness:
  "rd (scrollViews (merged_options demo_near 13)) = Val [Val 0] \<and>
   js_lt (js_abs (distanceToScroll_of demo_env (world demo_near) (merged_options demo_near 13) [Val 0]))
     (to_number (rd (minScrollDistance (merged_options demo_near 13)))) \<and>
   (\<exists>s'. start demo_env (Fin 0) 13 demo_near = Returned s' \<and>
      world s' = Fin 500 \<and>
      fired s' = [(11, False), (14, False), (13, True)] \<and>
      activeTimers s' = [3] \<and> runningInstances s' = [12])"
proof -
  have v: "rd (scrollViews (merged_options demo_near 13)) = Val [Val 0]"
    by (simp add: merged_options_demo_13 demo_options_def)
  have d: "distanceToScroll_of demo_env (world demo_near) (merged_options demo_near 13) [Val 0] = Fin 1"
    by (simp add: merged_options_demo_13 demo_near_simps distanceToScroll_of_def
        targetScrollPosition_of_def startScrollPosition_of_def demo_env_def demo_options_def
        demo_config_def js_sub_def)
  have m: "to_number (rd (minScrollDistance (merged_options demo_near 13))) = Fin 2"
    by (simp add: merged_options_demo_13 demo_options_def demo_config_def)
  have short: "js_lt (js_abs (distanceToScroll_of demo_env (world demo_near)
      (merged_options demo_near 13) [Val 0]))
      (to_number (rd (minScrollDistance (merged_options demo_near 13))))"
    by (simp add: d m)
  have ne: "[Val (0::nat)] \<noteq> []" by simp
  from start_jumps_to_target [OF v ne disjI1, OF short, of "Fin 0"]
  obtain s' where s': "start demo_env (Fin 0) 13 demo_near = Returned s'"
    "world s' = snd (setScrollPosition demo_env (world demo_near) (merged_options demo_near 13)
        (targetScrollPosition_of demo_env (world demo_near) (merged_options demo_near 13)))"
    "fired s' = fired (after_stopAll 13 demo_near) @ [(13, True)]"
    "activeTimers s' = activeTimers (after_stopAll 13 demo_near)"
    "runningInstances s' = runningInstances (after_stopAll 13 demo_near)"
    by blast
  have w: "world s' = Fin 500"
    by (simp add: s'(2) demo_env_def targetScrollPosition_of_def merged_options_demo_13
        demo_options_def demo_config_def js_sub_def)
  have f: "fired s' = [(11, False), (14, False), (13, True)]"
    by (simp add: s'(3) fired_after_stopAll demo_near_simps namespace_of_demo_near
        namespace_of_demo_running merged_options_demo_13 demo_options_def timer_demo_heap)
  have r: "runningInstances s' = [12]"
    by (simp add: s'(5) runningInstances_after_stopAll demo_near_simps namespace_of_demo_near
        namespace_of_demo_running merged_options_demo_13 demo_options_def)
  have a: "activeTimers s' = [3]"
    by (simp add: s'(4) activeTimers_after_stopAll demo_near_simps namespace_of_demo_near
        namespace_of_demo_running merged_options_demo_13 demo_options_def timer_demo_heap)
  from v short s'(1) w f r a show ?thesis by blast
qed

text \<open>
  C5: \<open>stopAll(ns)\<close> with a non-empty namespace stops, as interrupted, exactly the running
  instances of that namespace: they leave the running set, their timers are cleared and
  each fires (instance, false), in the order of the running set and without skipping
  one; every other instance is untouched, stays in the running set and keeps a timer
  that the environment still runs; the result is true iff some instance was stopped.
\<close>

theorem stopAll_namespace:
  assumes ns: "truthy_string ns" and wf: "timers_wf s"
  shows "runningInstances (snd (stopAll ns s)) =
           filter (\<lambda>q. namespace_of s q \<noteq> ns) (runningInstances s) \<and>
         fired (snd (stopAll ns s)) =
           fired s @ map (\<lambda>q. (q, False))
             (filter (\<lambda>q. namespace_of s q = ns) (runningInstances s)) \<and>
         (\<forall>q\<in>set (runningInstances s). namespace_of s q = ns \<longrightarrow>
            timer (heap (snd (stopAll ns s)) q) = None \<and>
            (\<forall>h. timer (heap s q) = Some h \<longrightarrow> h \<notin> set (activeTimers (snd (stopAll ns s))))) \<and>
         (\<forall>q. namespace_of s q \<noteq> ns \<longrightarrow> heap (snd (stopAll ns s)) q = heap s q) \<and>
         (\<forall>q\<in>set (runningInstances s). namespace_of s q \<noteq> ns \<longrightarrow>
            (\<exists>h. timer (heap (snd (stopAll ns s)) q) = Some h \<and>
                 h \<in> set (activeTimers (snd (stopAll ns s))))) \<and>
         fst (stopAll ns s) = (\<exists>q\<in>set (runningInstances s). namespace_of s q = ns)"
proof -
  let ?s' = "snd (stopAll ns s)"
  from ns have m: "ns_matches ns s = (\<lambda>q. namespace_of s q = ns)"
    by (simp add: ns_matches_def fun_eq_iff)
  have running: "runningInstances ?s' = filter (\<lambda>q. namespace_of s q \<noteq> ns) (runningInstances s)"
    by (simp add: runningInstances_stopAll m)
  from wf have d: "distinct (runningInstances s)" by (simp add: timers_wf_def)
  have all_timers: "filter (\<lambda>q. timer (heap s q) \<noteq> None)
        (filter (\<lambda>q. namespace_of s q = ns) (runningInstances s)) =
      filter (\<lambda>q. namespace_of s q = ns) (runningInstances s)"
    unfolding filter_id_conv using timers_wf_timer [OF wf] by auto
  have fired: "fired ?s' = fired s @ map (\<lambda>q. (q, False))
      (filter (\<lambda>q. namespace_of s q = ns) (runningInstances s))"
    using fired_stopAll [OF d, of ns] by (simp only: m all_timers)
  have stopped: "\<forall>q\<in>set (runningInstances s). namespace_of s q = ns \<longrightarrow>
      timer (heap ?s' q) = None \<and>
      (\<forall>h. timer (heap s q) = Some h \<longrightarrow> h \<notin> set (activeTimers ?s'))"
    by (auto simp: heap_stopAll activeTimers_stopAll m)
  have others: "\<forall>q. namespace_of s q \<noteq> ns \<longrightarrow> heap ?s' q = heap s q"
    by (simp add: heap_stopAll m)
  have kept: "\<forall>q\<in>set (runningInstances s). namespace_of s q \<noteq> ns \<longrightarrow>
      (\<exists>h. timer (heap ?s' q) = Some h \<and> h \<in> set (activeTimers ?s'))"
  proof (intro ballI impI)
    fix q assume q: "q \<in> set (runningInstances s)" and nq: "namespace_of s q \<noteq> ns"
    from timers_wf_timer [OF wf q] obtain h where
      h: "timer (heap s q) = Some h" "h \<in> set (activeTimers s)" by blast
    have "\<forall>r\<in>set (runningInstances s). namespace_of s r = ns \<longrightarrow> timer (heap s r) \<noteq> Some h"
    proof (intro ballI impI)
      fix r assume r: "r \<in> set (runningInstances s)" and nr: "namespace_of s r = ns"
      show "timer (heap s r) \<noteq> Some h"
      proof
        assume "timer (heap s r) = Some h"
        with h(1) have "timer (heap s q) = timer (heap s r)" by simp
        from timers_wf_inj [OF wf q r this] nq nr show False by simp
      qed
    qed
    with h nq show "\<exists>h. timer (heap ?s' q) = Some h \<and> h \<in> set (activeTimers ?s')"
      by (simp add: heap_stopAll activeTimers_stopAll m)
  qed
  have res: "fst (stopAll ns s) = (\<exists>q\<in>set (runningInstances s). namespace_of s q = ns)"
    by (simp add: stopAll_result m)
  from running fired stopped others kept res show ?thesis by blast
qed

theorem stopAll_namespace_witness:
  "truthy_string (Val ''a'') \<and> timers_wf demo_running \<and>
   runningInstances (snd (stopAll (Val ''a'') demo_running)) = [12] \<and>
   fired (snd (stopAll (Val ''a'') demo_running)) = [(11, False), (14, False)] \<and>
   timer (heap (snd (stopAll (Val ''a'') demo_running)) 11) = None \<and>
   heap (snd (stopAll (Val ''a'') demo_running)) 12 = heap demo_running 12 \<and>
   fst (stopAll (Val ''a'') demo_running)"
proof -
  have ns: "truthy_string (Val ''a'')" by simp
  from stopAll_namespace [OF ns timers_wf_demo_running] ns timers_wf_demo_running
  show ?thesis
    by (simp add: demo_running_simps namespace_of_demo_running)
qed

text \<open>
  C6 holds on the code but for one case. A mouse-press inside a scroll view that comes
  after an entry \<open>null\<close> in the list of scroll views does not stop the namespace:
  on a newly constructed service \<open>start\<close> accepts the list [\<open>null\<close>, view 0], skips the
  entry and sets up the animation of instance 17, with listeners; a mouse-press on node 3,
  which is inside view 0, then makes \<open>report\<close> throw, and the instance goes on running,
  where \<open>stopAll\<close> on its namespace would have stopped it.
\<close>

theorem report_null_view_throws:
  "rd (scrollViews (opts (state_of (start demo_env (Fin 0) 17 demo_fresh)) 17)) =
     Val [Null, Val 0] \<and>
   truthy_bool (rd (interruptible (opts (state_of (start demo_env (Fin 0) 17 demo_fresh)) 17))) \<and>
   interruptListenersAttached (heap (state_of (start demo_env (Fin 0) 17 demo_fresh)) 17) \<and>
   runningInstances (state_of (start demo_env (Fin 0) 17 demo_fresh)) = [17] \<and>
   contains demo_env (world (state_of (start demo_env (Fin 0) 17 demo_fresh))) 0 3 \<and>
   report demo_env (demo_click 3) 17 (state_of (start demo_env (Fin 0) 17 demo_fresh)) =
     Threw TypeError (state_of (start demo_env (Fin 0) 17 demo_fresh)) \<and>
   runningInstances (snd (stopAll (Val ''e'') (state_of (start demo_env (Fin 0) 17 demo_fresh)))) =
     []"
proof -
  let ?s = "state_of (start demo_env (Fin 0) 17 demo_fresh)"
  have v: "rd (scrollViews (merged_options demo_fresh 17)) = Val [Null, Val 0]"
    by (simp add: merged_options_demo_fresh demo_null_options_def)
  have ne: "[Null, Val (0::nat)] \<noteq> []" by simp
  have o: "opts ?s 17 = demo_null_options"
    by (simp add: opts_start after_stopAll_world_opts merged_options_demo_fresh)
  have a: "animates demo_env (world (after_stopAll 17 demo_fresh))
      (opts (after_stopAll 17 demo_fresh) 17) [Null, Val 0]"
    by (simp add: after_stopAll_world_opts merged_options_demo_fresh demo_fresh_simps
        animates_demo_null)
  have r2: "runningInstances (after_stopAll 17 demo_fresh) = []"
    by (simp add: runningInstances_after_stopAll demo_fresh_simps)
  have r: "runningInstances ?s = [17]"
    using a by (simp add: start_views [OF v ne] runningInstances_start_scroll r2)
  have views: "rd (scrollViews (opts ?s 17)) = Val [Null, Val 0]"
    by (simp add: o demo_null_options_def)
  have i: "truthy_bool (rd (interruptible (opts ?s 17)))"
    by (simp add: o demo_null_options_def demo_options_def demo_config_def)
  have i': "truthy_bool (rd (interruptible (opts (after_stopAll 17 demo_fresh) 17)))"
    by (simp add: after_stopAll_world_opts merged_options_demo_fresh demo_null_options_def
        demo_options_def demo_config_def)
  have l: "interruptListenersAttached (heap ?s 17)"
    using a i' by (simp add: start_views [OF v ne] attached_start_scroll)
  have c: "contains demo_env (world ?s) 0 3"
    by (simp add: demo_env_def)
  have t: "report demo_env (demo_click 3) 17 ?s = Threw TypeError ?s"
    using i by (simp add: report_def shouldStop_def demo_click_def views)
  have ns: "namespace_of ?s 17 = Val ''e''"
    by (simp add: namespace_of_def o demo_null_options_def demo_options_def)
  have st: "runningInstances (snd (stopAll (Val ''e'') ?s)) = []"
    by (simp add: runningInstances_stopAll r ns_matches_def ns)
  from views i l r c t st show ?thesis by blast
qed

text \<open>
  What \<open>report\<close> does otherwise. For an instance that is not interruptible it ignores
  every event. For an interruptible one, a key-release whose code is not among the
  interrupt keys and a mouse-press on a node outside every scroll view leave the
  service as it is; a key-release whose code is among the interrupt keys, and a
  mouse-press on a node inside one of the scroll views when every entry of the list is
  an element, run \<open>stopAll\<close> on the instance's namespace.
\<close>

lemma report_interrupt_policy:
  "(\<not> truthy_bool (rd (interruptible (opts s p))) \<longrightarrow> report env ev p s = Returned s) \<and>
   (truthy_bool (rd (interruptible (opts s p))) \<longrightarrow>
      (etype ev = ''keyup'' \<longrightarrow>
         ((\<forall>keys. rd (interruptKeys (config s)) = Val keys \<longrightarrow> keyCode ev \<notin> set keys) \<longrightarrow>
            state_of (report env ev p s) = s) \<and>
         (\<forall>keys. rd (interruptKeys (config s)) = Val keys \<and> keyCode ev \<in> set keys \<longrightarrow>
            report env ev p s = Returned (snd (stopAll (namespace_of s p) s)))) \<and>
      (etype ev = ''mousedown'' \<longrightarrow>
         ((\<forall>views v. rd (scrollViews (opts s p)) = Val views \<and> Val v \<in> set views \<longrightarrow>
              \<not> contains env (world s) v (target ev)) \<longrightarrow>
            state_of (report env ev p s) = s) \<and>
         (\<forall>views. rd (scrollViews (opts s p)) = Val views \<and>
              Undefined \<notin> set views \<and> Null \<notin> set views \<and>
              (\<exists>v. Val v \<in> set views \<and> contains env (world s) v (target ev)) \<longrightarrow>
            report env ev p s = Returned (snd (stopAll (namespace_of s p) s)))))"
proof (intro conjI impI allI)
  assume "\<not> truthy_bool (rd (interruptible (opts s p)))"
  then show "report env ev p s = Returned s" by (simp add: report_def)
next
  assume k: "etype ev = ''keyup''"
    and out: "\<forall>keys. rd (interruptKeys (config s)) = Val keys \<longrightarrow> keyCode ev \<notin> set keys"
  have "shouldStop env ev p s \<noteq> Inr True"
    using k out by (cases "rd (interruptKeys (config s))") (simp_all add: shouldStop_def)
  then show "state_of (report env ev p s) = s" by (rule report_unchanged)
next
  fix keys
  assume i: "truthy_bool (rd (interruptible (opts s p)))" and k: "etype ev = ''keyup''"
    and inside: "rd (interruptKeys (config s)) = Val keys \<and> keyCode ev \<in> set keys"
  have "shouldStop env ev p s = Inr True"
    using k inside by (simp add: shouldStop_def)
  with i show "report env ev p s = Returned (snd (stopAll (namespace_of s p) s))"
    by (rule report_stops)
next
  assume m: "etype ev = ''mousedown''"
    and out: "\<forall>views v. rd (scrollViews (opts s p)) = Val views \<and> Val v \<in> set views \<longrightarrow>
              \<not> contains env (world s) v (target ev)"
  have "shouldStop env ev p s \<noteq> Inr True"
  proof (cases "rd (scrollViews (opts s p))")
    case (Val views)
    with out have "\<forall>v. Val v \<in> set views \<longrightarrow> \<not> contains env (world s) v (target ev)"
      by blast
    from views_some_contains_outside [OF this] m Val show ?thesis
      by (simp add: shouldStop_def)
  qed (simp_all add: shouldStop_def m)
  then show "state_of (report env ev p s) = s" by (rule report_unchanged)
next
  fix views
  assume i: "truthy_bool (rd (interruptible (opts s p)))" and m: "etype ev = ''mousedown''"
    and inside: "rd (scrollViews (opts s p)) = Val views \<and>
              Undefined \<notin> set views \<and> Null \<notin> set views \<and>
              (\<exists>v. Val v \<in> set views \<and> contains env (world s) v (target ev))"
  then have "views_some_contains env (world s) (target ev) views = Inr True"
    by (intro views_some_contains_inside) auto
  with m inside have "shouldStop env ev p s = Inr True"
    by (simp add: shouldStop_def)
  with i show "report env ev p s = Returned (snd (stopAll (namespace_of s p) s))"
    by (rule report_stops)
qed

lemma report_interrupt_policy_demo:
  "\<not> truthy_bool (rd (interruptible (opts demo_fixed 11))) \<and>
   report demo_env (demo_key 27) 11 demo_fixed = Returned demo_fixed \<and>
   truthy_bool (rd (interruptible (opts demo_running 11))) \<and>
   state_of (report demo_env (demo_key 65) 11 demo_running) = demo_running \<and>
   report demo_env (demo_key 27) 11 demo_running =
     Returned (snd (stopAll (Val ''a'') demo_running)) \<and>
   state_of (report demo_env (demo_click 50) 11 demo_running) = demo_running \<and>
   report demo_env (demo_click 3) 11 demo_running =
     Returned (snd (stopAll (Val ''a'') demo_running))"
proof -
  have nf: "\<not> truthy_bool (rd (interruptible (opts demo_fixed 11)))"
    by (simp add: opts_def demo_fixed_def demo_running_def)
  have i: "truthy_bool (rd (interruptible (opts demo_running 11)))"
    by (simp add: opts_demo_running_11 demo_options_def demo_config_def)
  have keys: "rd (interruptKeys (config demo_running)) = Val [27, 32]"
    by (simp add: demo_running_simps demo_config_def)
  have views: "rd (scrollViews (opts demo_running 11)) = Val [Val 0]"
    by (simp add: opts_demo_running_11 demo_options_def)
  have ns: "namespace_of demo_running 11 = Val ''a''"
    by (simp add: namespace_of_demo_running)
  note a = report_interrupt_policy [of demo_fixed 11 demo_env "demo_key 27",
      THEN conjunct1, THEN mp, OF nf]
  note k = report_interrupt_policy [of demo_running 11 demo_env "demo_key 65",
      THEN conjunct2, THEN mp, OF i, THEN conjunct1, THEN mp]
  note k' = report_interrupt_policy [of demo_running 11 demo_env "demo_key 27",
      THEN conjunct2, THEN mp, OF i, THEN conjunct1, THEN mp]
  note c = report_interrupt_policy [of demo_running 11 demo_env "demo_click 50",
      THEN conjunct2, THEN mp, OF i, THEN conjunct2, THEN mp]
  note c' = report_interrupt_policy [of demo_running 11 demo_env "demo_click 3",
      THEN conjunct2, THEN mp, OF i, THEN conjunct2, THEN mp]
  have b1: "state_of (report demo_env (demo_key 65) 11 demo_running) = demo_running"
    using k [THEN conjunct1] by (simp add: demo_key_def keys)
  have b2: "report demo_env (demo_key 27) 11 demo_running =
      Returned (snd (stopAll (namespace_of demo_running 11) demo_running))"
    using k' [THEN conjunct2] by (simp add: demo_key_def keys)
  have b3: "state_of (report demo_env (demo_click 50) 11 demo_running) = demo_running"
    using c [THEN conjunct1] by (simp add: demo_click_def views demo_env_def)
  have b4: "report demo_env (demo_click 3) 11 demo_running =
      Returned (snd (stopAll (namespace_of demo_running 11) demo_running))"
    using c' [THEN conjunct2] by (simp add: demo_click_def views demo_env_def)
  from nf a i b1 b2 b3 b4 show ?thesis by (simp add: ns)
qed

text \<open>
  C7: stopping an instance that is not running returns false and changes nothing;
  stopping a running instance clears its timer, fires the completion callback with
  success = false, takes it out of the running set and returns true; a second stop of
  the same instance returns false.
\<close>

theorem stop_not_running_then_false:
  "(consistent s p \<and> timer (heap s p) = None \<longrightarrow> stop p s = (False, s)) \<and>
   (\<forall>h. timer (heap s p) = Some h \<longrightarrow>
      fst (stop p s) = True \<and>
      timer (heap (snd (stop p s)) p) = None \<and>
      h \<notin> set (activeTimers (snd (stop p s))) \<and>
      fired (snd (stop p s)) = fired s @ [(p, False)] \<and>
      runningInstances (snd (stop p s)) = remove1 p (runningInstances s)) \<and>
   fst (stop p (snd (stop p s))) = False"
proof (intro conjI allI impI)
  assume "consistent s p \<and> timer (heap s p) = None"
  then show "stop p s = (False, s)"
    unfolding stop_def consistent_def by (intro stopInternal_idle) auto
next
  fix h assume h: "timer (heap s p) = Some h"
  show "fst (stop p s) = True" using h by (simp add: stop_def fst_stopInternal)
  show "timer (heap (snd (stop p s)) p) = None" by (simp add: stop_def heap_stopInternal)
  show "h \<notin> set (activeTimers (snd (stop p s)))"
    using h by (simp add: stop_def activeTimers_stopInternal)
  show "fired (snd (stop p s)) = fired s @ [(p, False)]"
    using h by (simp add: stop_def fired_stopInternal)
  show "runningInstances (snd (stop p s)) = remove1 p (runningInstances s)"
    by (simp add: stop_def runningInstances_stopInternal)
next
  show "fst (stop p (snd (stop p s))) = False"
    by (simp add: stop_def fst_stopInternal heap_stopInternal)
qed

theorem stop_witness:
  "consistent demo_running 13 \<and> timer (heap demo_running 13) = None \<and>
   stop 13 demo_running = (False, demo_running) \<and>
   timer (heap demo_running 11) = Some 2 \<and> fst (stop 11 demo_running) \<and>
   fired (snd (stop 11 demo_running)) = [(11, False)] \<and>
   runningInstances (snd (stop 11 demo_running)) = [14, 12]"
  using stop_not_running_then_false [of demo_running 13]
    stop_not_running_then_false [of demo_running 11]
  by (simp add: consistent_def demo_running_def demo_heap_def demo_instance_def)

text \<open>
  C8: once \<open>start\<close> has scroll views and a distance that is a number, the execution
  duration that it stores is the duration of the merged options whenever a duration is
  given; it is |distance| / speed * 1000 when a speed is given and no duration is; and
  with neither it is the absent duration itself.
\<close>

theorem start_executionDuration:
  assumes views: "rd (scrollViews (merged_options s p)) = Val views" "views \<noteq> []"
    and num: "\<not> isNaN (distanceToScroll_of env (world s) (merged_options s p) views)"
  shows "(given (rd (duration (merged_options s p))) \<longrightarrow>
            executionDuration (heap (state_of (start env now p s)) p) =
              rd (duration (merged_options s p))) \<and>
         (\<forall>sp. \<not> given (rd (duration (merged_options s p))) \<and>
               rd (speed (merged_options s p)) = Val sp \<longrightarrow>
            executionDuration (heap (state_of (start env now p s)) p) =
              Val (js_mul (js_div (js_abs (distanceToScroll_of env (world s)
                                             (merged_options s p) views)) sp) (Fin 1000))) \<and>
         (\<not> given (rd (duration (merged_options s p))) \<and>
          \<not> given (rd (speed (merged_options s p))) \<longrightarrow>
            executionDuration (heap (state_of (start env now p s)) p) =
              rd (duration (merged_options s p)))"
proof -
  let ?d = "distanceToScroll_of env (world s) (merged_options s p) views"
  from num have nu: "\<not> unresolvable env (world (after_stopAll p s)) (opts (after_stopAll p s) p) views"
    by (simp add: unresolvable_def after_stopAll_world_opts)
  have "executionDuration (heap (state_of (start env now p s)) p) =
      executionDuration_of (merged_options s p) ?d"
    using nu by (simp add: start_views [OF views] executionDuration_start_scroll
        after_stopAll_world_opts)
  then show ?thesis by (auto simp: executionDuration_of_def)
qed

theorem start_executionDuration_witness:
  "rd (scrollViews (merged_options demo_speed 16)) = Val [Val 0] \<and>
   \<not> isNaN (distanceToScroll_of demo_env (world demo_speed) (merged_options demo_speed 16) [Val 0]) \<and>
   \<not> given (rd (duration (merged_options demo_speed 16))) \<and>
   rd (speed (merged_options demo_speed 16)) = Val (Fin 250) \<and>
   executionDuration (heap (state_of (start demo_env (Fin 0) 16 demo_speed)) 16) = Val (Fin 2000) \<and>
   given (rd (duration (merged_options demo_speed 13))) \<and>
   executionDuration (heap (state_of (start demo_env (Fin 0) 13 demo_speed)) 13) = Val (Fin 1000)"
proof -
  have w: "world demo_speed = Fin 0" by (simp add: demo_speed_def demo_running_simps)
  have v: "rd (scrollViews (merged_options demo_speed 16)) = Val [Val 0]"
    "rd (scrollViews (merged_options demo_speed 13)) = Val [Val 0]"
    by (simp_all add: merged_options_demo_speed demo_options_def)
  have d: "distanceToScroll_of demo_env (world demo_speed) (merged_options demo_speed 16) [Val 0] = Fin 500"
    "distanceToScroll_of demo_env (world demo_speed) (merged_options demo_speed 13) [Val 0] = Fin 500"
    by (simp_all add: w merged_options_demo_speed distance_demo)
  have n: "\<not> isNaN (distanceToScroll_of demo_env (world demo_speed) (merged_options demo_speed 16) [Val 0])"
    "\<not> isNaN (distanceToScroll_of demo_env (world demo_speed) (merged_options demo_speed 13) [Val 0])"
    by (simp_all add: d)
  have g: "\<not> given (rd (duration (merged_options demo_speed 16)))"
    "rd (speed (merged_options demo_speed 16)) = Val (Fin 250)"
    "given (rd (duration (merged_options demo_speed 13)))"
    "rd (duration (merged_options demo_speed 13)) = Val (Fin 1000)"
    by (simp_all add: merged_options_demo_speed demo_options_def demo_config_def)
  have ne: "[Val (0::nat)] \<noteq> []" by simp
  from start_executionDuration [OF v(1) ne n(1), of "Fin 0"] g(1,2)
  have a: "executionDuration (heap (state_of (start demo_env (Fin 0) 16 demo_speed)) 16) =
      Val (js_mul (js_div (js_abs (distanceToScroll_of demo_env (world demo_speed)
        (merged_options demo_speed 16) [Val 0])) (Fin 250)) (Fin 1000))"
    by blast
  from start_executionDuration [OF v(2) ne n(2), of "Fin 0"] g(3)
  have b: "executionDuration (heap (state_of (start demo_env (Fin 0) 13 demo_speed)) 13) =
      rd (duration (merged_options demo_speed 13))"
    by blast
  from a b v n g show ?thesis by (simp add: d)
qed

text \<open>
  C9: when the argument of \<open>stopAll\<close> is \<open>undefined\<close> or the empty string, the loop's test
  holds for every instance, so every running instance is stopped, whatever its
  namespace: the running set becomes empty, each timer is cleared in the environment
  and on the instance, the listeners are detached and each instance fires false. Hence
  a \<open>start\<close> whose merged options have an undefined or empty namespace first stops all
  running instances: afterwards the running set holds at most the started instance,
  and no timer of another instance runs any more.
\<close>

theorem stopAll_without_namespace:
  "(ns = Undefined \<or> ns = Val [] \<longrightarrow>
      runningInstances (snd (stopAll ns s)) = [] \<and>
      (\<forall>q\<in>set (runningInstances s).
         timer (heap (snd (stopAll ns s)) q) = None \<and>
         \<not> interruptListenersAttached (heap (snd (stopAll ns s)) q) \<and>
         (\<forall>h. timer (heap s q) = Some h \<longrightarrow> h \<notin> set (activeTimers (snd (stopAll ns s))))) \<and>
      (timers_wf s \<longrightarrow>
         fired (snd (stopAll ns s)) = fired s @ map (\<lambda>q. (q, False)) (runningInstances s)) \<and>
      fst (stopAll ns s) = (runningInstances s \<noteq> [])) \<and>
   (merged_namespace s p = Undefined \<or> merged_namespace s p = Val [] \<longrightarrow>
      runningInstances (after_stopAll p s) = [] \<and>
      (\<forall>q\<in>set (runningInstances s). q \<noteq> p \<longrightarrow>
         timer (heap (state_of (start env now p s)) q) = None \<and>
         q \<notin> set (runningInstances (state_of (start env now p s))) \<and>
         \<not> interruptListenersAttached (heap (state_of (start env now p s)) q) \<and>
         (\<forall>h. timer (heap s q) = Some h \<longrightarrow>
            h \<notin> set (activeTimers (after_stopAll p s)) \<and>
            (timers_wf s \<longrightarrow> h \<notin> set (activeTimers (state_of (start env now p s)))))) \<and>
      (timers_wf s \<longrightarrow>
         fired (after_stopAll p s) = fired s @ map (\<lambda>q. (q, False)) (runningInstances s)) \<and>
      set (runningInstances (state_of (start env now p s))) \<subseteq> {p})"
proof (intro conjI impI)
  assume "ns = Undefined \<or> ns = Val []"
  then have m: "ns_matches ns s = (\<lambda>q. True)"
    by (auto simp: ns_matches_def fun_eq_iff)
  show "runningInstances (snd (stopAll ns s)) = []"
    by (simp add: runningInstances_stopAll m)
  show "\<forall>q\<in>set (runningInstances s).
         timer (heap (snd (stopAll ns s)) q) = None \<and>
         \<not> interruptListenersAttached (heap (snd (stopAll ns s)) q) \<and>
         (\<forall>h. timer (heap s q) = Some h \<longrightarrow> h \<notin> set (activeTimers (snd (stopAll ns s))))"
  proof (intro ballI conjI allI impI)
    fix q assume q: "q \<in> set (runningInstances s)"
    then show "timer (heap (snd (stopAll ns s)) q) = None"
      "\<not> interruptListenersAttached (heap (snd (stopAll ns s)) q)"
      by (simp_all add: heap_stopAll m)
    fix h assume "timer (heap s q) = Some h"
    with q show "h \<notin> set (activeTimers (snd (stopAll ns s)))"
      by (intro cleared_stopAll [of q]) (simp_all add: m)
  qed
  show "fst (stopAll ns s) = (runningInstances s \<noteq> [])"
    by (cases "runningInstances s") (auto simp: stopAll_result m)
  assume wf: "timers_wf s"
  from timers_wf_all_timers [OF wf, of "\<lambda>q. True"]
  have "filter (\<lambda>q. timer (heap s q) \<noteq> None) (runningInstances s) = runningInstances s"
    by simp
  with fired_stopAll [OF timers_wf_distinct [OF wf], of ns]
  show "fired (snd (stopAll ns s)) = fired s @ map (\<lambda>q. (q, False)) (runningInstances s)"
    by (simp add: m)
next
  assume ns: "merged_namespace s p = Undefined \<or> merged_namespace s p = Val []"
  then have nt': "\<not> truthy_string (merged_namespace s p)" by auto
  then have nt: "\<not> truthy_string (rd (namespace (merged_options s p)))"
    by (simp add: merged_namespace_def)
  show empty: "runningInstances (after_stopAll p s) = []"
    using nt by (simp add: runningInstances_after_stopAll)
  from runningInstances_start [of env now p s] empty
  show sub: "set (runningInstances (state_of (start env now p s))) \<subseteq> {p}"
    by auto
  show "\<forall>q\<in>set (runningInstances s). q \<noteq> p \<longrightarrow>
         timer (heap (state_of (start env now p s)) q) = None \<and>
         q \<notin> set (runningInstances (state_of (start env now p s))) \<and>
         \<not> interruptListenersAttached (heap (state_of (start env now p s)) q) \<and>
         (\<forall>h. timer (heap s q) = Some h \<longrightarrow>
            h \<notin> set (activeTimers (after_stopAll p s)) \<and>
            (timers_wf s \<longrightarrow> h \<notin> set (activeTimers (state_of (start env now p s)))))"
  proof (intro ballI impI conjI allI)
    fix q assume q: "q \<in> set (runningInstances s)" and np: "q \<noteq> p"
    from nt' have m: "q = p \<or> \<not> truthy_string (merged_namespace s p) \<or>
        namespace_of s q = merged_namespace s p" by simp
    have eq: "heap (state_of (start env now p s)) q = heap (after_stopAll p s) q"
      using np by (rule heap_start_other)
    show "timer (heap (state_of (start env now p s)) q) = None"
      "\<not> interruptListenersAttached (heap (state_of (start env now p s)) q)"
      unfolding eq by (rule stopped_after_stopAll [OF q m])+
    from sub np show "q \<notin> set (runningInstances (state_of (start env now p s)))" by blast
    fix h assume h: "timer (heap s q) = Some h"
    show "h \<notin> set (activeTimers (after_stopAll p s))"
      by (rule cleared_after_stopAll [OF q m h])
    assume wf: "timers_wf s"
    show "h \<notin> set (activeTimers (state_of (start env now p s)))"
      by (rule cleared_start [OF wf q m h])
  qed
  assume wf: "timers_wf s"
  from timers_wf_all_timers [OF wf, of "\<lambda>q. True"]
  have "filter (\<lambda>q. timer (heap s q) \<noteq> None) (runningInstances s) = runningInstances s"
    by simp
  with fired_after_stopAll [OF timers_wf_distinct [OF wf], of p] nt
  show "fired (after_stopAll p s) = fired s @ map (\<lambda>q. (q, False)) (runningInstances s)"
    by simp
qed

theorem stopAll_without_namespace_witness:
  "timers_wf demo_running \<and>
   runningInstances (snd (stopAll (Val []) demo_running)) = [] \<and>
   fired (snd (stopAll (Val []) demo_running)) = [(11, False), (14, False), (12, False)] \<and>
   fst (stopAll (Val []) demo_running) \<and>
   timer (heap demo_running 12) = Some 3 \<and>
   3 \<notin> set (activeTimers (snd (stopAll (Val []) demo_running))) \<and>
   merged_namespace demo_running 20 = Undefined \<and>
   fired (after_stopAll 20 demo_running) = [(11, False), (14, False), (12, False)] \<and>
   timer (heap (state_of (start demo_env (Fin 0) 20 demo_running)) 12) = None \<and>
   3 \<notin> set (activeTimers (state_of (start demo_env (Fin 0) 20 demo_running))) \<and>
   set (runningInstances (state_of (start demo_env (Fin 0) 20 demo_running))) \<subseteq> {20}"
proof -
  have m: "merged_namespace demo_running 20 = Undefined"
    by (simp add: merged_namespace_def merged_options_demo_20 demo_options_def)
  have e: "Val [] = Undefined \<or> Val [] = (Val [] :: string jsval)" by simp
  have m': "merged_namespace demo_running 20 = Undefined \<or>
      merged_namespace demo_running 20 = Val []"
    by (simp add: m)
  have in12: "12 \<in> set (runningInstances demo_running)" by (simp add: demo_running_simps)
  have t12: "timer (heap demo_running 12) = Some 3"
    by (simp add: demo_running_simps timer_demo_heap)
  have ne: "(12::nat) \<noteq> 20" by simp
  note a = stopAll_without_namespace [of "Val []" demo_running 20 demo_env "Fin 0",
      THEN conjunct1, THEN mp, OF e]
  note b = stopAll_without_namespace [of "Val []" demo_running 20 demo_env "Fin 0",
      THEN conjunct2, THEN mp, OF m']
  note a1 = a [THEN conjunct1]
  note a2 = a [THEN conjunct2, THEN conjunct2, THEN conjunct1, THEN mp,
      OF timers_wf_demo_running]
  note a3 = a [THEN conjunct2, THEN conjunct2, THEN conjunct2]
  note a4 = a [THEN conjunct2, THEN conjunct1, THEN bspec, OF in12, THEN conjunct2,
      THEN conjunct2, THEN spec, THEN mp, OF t12]
  note b2 = b [THEN conjunct2, THEN conjunct1, THEN bspec, OF in12, THEN mp, OF ne]
  note b2' = b2 [THEN conjunct1]
  note b4 = b2 [THEN conjunct2, THEN conjunct2, THEN conjunct2, THEN spec, THEN mp, OF t12,
      THEN conjunct2, THEN mp, OF timers_wf_demo_running]
  note b1 = b [THEN conjunct2, THEN conjunct2, THEN conjunct1, THEN mp,
      OF timers_wf_demo_running]
  note b3 = b [THEN conjunct2, THEN conjunct2, THEN conjunct2]
  from timers_wf_demo_running a1 a2 a3 a4 t12 m b1 b2' b4 b3 show ?thesis
    by (simp add: demo_running_simps)
qed

text \<open>
  C10: on the short-circuit path of \<open>start\<close> the result of \<open>setScrollPosition\<close> is not
  looked at: the completion callback fires with true also when the target position
  could not be written to any scroll view. In the tick handler a failed write runs
  the stop sequence, and a successful write before the end time does not.
\<close>

theorem start_jump_ignores_write_result:
  assumes views: "rd (scrollViews (merged_options s p)) = Val views" "views \<noteq> []"
    and short:
      "js_lt (js_abs (distanceToScroll_of env (world s) (merged_options s p) views))
         (to_number (rd (minScrollDistance (merged_options s p)))) \<or>
       \<not> isNaN (distanceToScroll_of env (world s) (merged_options s p) views) \<and>
       js_le (to_number (executionDuration_of (merged_options s p)
                (distanceToScroll_of env (world s) (merged_options s p) views)))
         (to_number (rd (interval (merged_options s p))))"
    and failed: "\<not> fst (setScrollPosition env (world s) (merged_options s p)
                        (targetScrollPosition_of env (world s) (merged_options s p)))"
  shows "fired (state_of (start env now p s)) = fired (after_stopAll p s) @ [(p, True)] \<and>
         (\<forall>t q pos. tick_step t (heap s q) = Inr (pos, False) \<longrightarrow>
            (if fst (setScrollPosition env (world s) (opts s q) pos)
             then tick env t q s = Returned (snd (apply_position env q pos s))
             else tick env t q s =
                    Returned (snd (stopInternal False q (snd (apply_position env q pos s))))))"
proof (intro conjI allI impI)
  let ?d = "distanceToScroll_of env (world s) (merged_options s p) views"
  have nan: "\<not> isNaN ?d"
    using short by (cases ?d) auto
  with short have j: "jumps env (world (after_stopAll p s)) (opts (after_stopAll p s) p) views"
    by (auto simp: jumps_def after_stopAll_world_opts allReadyAtDestination_def
        tooShortInterval_def)
  then have nu: "\<not> unresolvable env (world (after_stopAll p s)) (opts (after_stopAll p s) p) views"
    by (auto simp: jumps_def unresolvable_def)
  show "fired (state_of (start env now p s)) = fired (after_stopAll p s) @ [(p, True)]"
    using j nu by (simp add: start_views [OF views] fired_start_scroll)
next
  fix t q pos
  assume step: "tick_step t (heap s q) = Inr (pos, False)"
  show "if fst (setScrollPosition env (world s) (opts s q) pos)
        then tick env t q s = Returned (snd (apply_position env q pos s))
        else tick env t q s =
               Returned (snd (stopInternal False q (snd (apply_position env q pos s))))"
    using tick_stops [OF step, of env] tick_continues [OF step, of env] by simp
qed

theorem start_jump_ignores_write_result_witness:
  "rd (scrollViews (merged_options demo_near 13)) = Val [Val 0] \<and>
   js_lt (js_abs (distanceToScroll_of demo_env_locked (world demo_near)
                    (merged_options demo_near 13) [Val 0]))
     (to_number (rd (minScrollDistance (merged_options demo_near 13)))) \<and>
   \<not> fst (setScrollPosition demo_env_locked (world demo_near) (merged_options demo_near 13)
            (targetScrollPosition_of demo_env_locked (world demo_near)
               (merged_options demo_near 13))) \<and>
   fired (state_of (start demo_env_locked (Fin 0) 13 demo_near)) =
     [(11, False), (14, False), (13, True)] \<and>
   tick_step (Fin 500) (heap demo_near 11) = Inr (Fin 250, False) \<and>
   tick demo_env_locked (Fin 500) 11 demo_near =
     Returned (snd (stopInternal False 11 (snd (apply_position demo_env_locked 11 (Fin 250) demo_near))))"
proof -
  have v: "rd (scrollViews (merged_options demo_near 13)) = Val [Val 0]"
    by (simp add: merged_options_demo_13 demo_options_def)
  have short: "js_lt (js_abs (distanceToScroll_of demo_env_locked (world demo_near)
      (merged_options demo_near 13) [Val 0]))
      (to_number (rd (minScrollDistance (merged_options demo_near 13))))"
    by (simp add: merged_options_demo_13 demo_near_simps distance_demo_near)
      (simp add: demo_options_def demo_config_def)
  have failed: "\<not> fst (setScrollPosition demo_env_locked (world demo_near)
      (merged_options demo_near 13)
      (targetScrollPosition_of demo_env_locked (world demo_near) (merged_options demo_near 13)))"
    by (simp add: demo_env_locked_def)
  have ne: "[Val (0::nat)] \<noteq> []" by simp
  have step: "tick_step (Fin 500) (heap demo_near 11) = Inr (Fin 250, False)"
    by (simp add: demo_near_simps demo_heap_def demo_instance_def tick_step_def demo_options_def
        demo_config_def demo_easing_def js_sub_def)
  have w: "\<not> fst (setScrollPosition demo_env_locked (world demo_near) (opts demo_near 11) (Fin 250))"
    by (simp add: demo_env_locked_def)
  note inst = start_jump_ignores_write_result [OF v ne disjI1 failed, OF short, of "Fin 0"]
  from inst have f: "fired (state_of (start demo_env_locked (Fin 0) 13 demo_near)) =
      fired (after_stopAll 13 demo_near) @ [(13, True)]"
    by blast
  from inst step have "if fst (setScrollPosition demo_env_locked (world demo_near) (opts demo_near 11) (Fin 250))
      then tick demo_env_locked (Fin 500) 11 demo_near =
        Returned (snd (apply_position demo_env_locked 11 (Fin 250) demo_near))
      else tick demo_env_locked (Fin 500) 11 demo_near =
        Returned (snd (stopInternal False 11 (snd (apply_position demo_env_locked 11 (Fin 250) demo_near))))"
    by blast
  with w have t: "tick demo_env_locked (Fin 500) 11 demo_near =
      Returned (snd (stopInternal False 11 (snd (apply_position demo_env_locked 11 (Fin 250) demo_near))))"
    by simp
  have f': "fired (after_stopAll 13 demo_near) @ [(13, True)] = [(11, False), (14, False), (13, True)]"
    by (simp add: fired_after_stopAll demo_near_simps namespace_of_demo_near
        namespace_of_demo_running merged_options_demo_13 demo_options_def timer_demo_heap)
  from v short failed f f' step t show ?thesis by simp
qed

end
